theory Spec2Isabelle
  imports Main "HOL-Library.Word"
begin

section \<open>The inline-cache rewriter of \<^verbatim>\<open>src/asm_writing/rewriter.cpp\<close>\<close>

text \<open>
  The rewriter records virtual operations on symbolic values (the collect phase) and
  replays them in \<^verbatim>\<open>commit()\<close> while it emits x86-64 code (the emit phase).
  The embedding keeps one record for the \<^verbatim>\<open>Rewriter\<close> object, which is passed through
  every function and returned updated.  A \<^verbatim>\<open>RewriterVar*\<close> is the index of the
  variable in \<^verbatim>\<open>Rewriter::vars\<close>.  The assembler is the list of the instructions
  requested from it, together with the number of bytes written.

  A failing \<^verbatim>\<open>assert\<close>, a failing \<^verbatim>\<open>RELEASE_ASSERT\<close> and a call of
  \<^verbatim>\<open>abort()\<close> end the process; they are the \<open>Inl\<close> results of the model
  (the build with assertions enabled, without \<^verbatim>\<open>Py_REF_DEBUG\<close> and without
  \<^verbatim>\<open>Py_TRACE_REFS\<close>).
\<close>

subsection \<open>Registers and locations\<close>

text \<open>The general-purpose registers, in the order of their hardware numbers 0 to 15
  (the order in which \<^verbatim>\<open>assembler::Register(reg_num)\<close> enumerates them).\<close>

datatype register =
  RAX | RCX | RDX | RBX | RSP | RBP | RSI | RDI | R8 | R9 | R10 | R11 | R12 | R13 | R14 | R15

definition all_registers :: "register list" where
  "all_registers = [RAX, RCX, RDX, RBX, RSP, RBP, RSI, RDI, R8, R9, R10, R11, R12, R13, R14, R15]"

text \<open>Modelled from the spec: \<^verbatim>\<open>assembler::Register::isCalleeSave\<close> is declared in
  the assembler's headers, which are not part of the sources at hand.  Section 6 of the
  specification lists the callee-save registers: RBX, RBP, R12 to R15 and RSP.\<close>

definition isCalleeSave :: "register \<Rightarrow> bool" where
  "isCalleeSave r = (r \<in> {RBX, RBP, RSP, R12, R13, R14, R15})"

text \<open>Modelled from the spec: the tagged union \<^verbatim>\<open>Location\<close> (section 3 of the
  specification); the class itself is declared in \<^verbatim>\<open>rewriter.h\<close>.  Equality is
  structural.\<close>

datatype location =
  Register register
  | XMMRegister nat
  | Scratch int
  | Stack int
  | StackIndirect int int
  | AnyReg
  | NoneLoc
  | Uninitialized

definition std_allocatable_regs :: "register list" where
  "std_allocatable_regs = [RAX, RCX, RDX, RDI, RSI, R8, R9, R10, R11]"

definition caller_save_registers :: "location list" where
  "caller_save_registers =
     map Register [RAX, RCX, RDX, RSI, RDI, R8, R9, R10, R11] @ map XMMRegister [0 ..< 16]"

fun forArg :: "nat \<Rightarrow> location" where
  "forArg argnum =
     (if argnum = 0 then Register RDI
      else if argnum = 1 then Register RSI
      else if argnum = 2 then Register RDX
      else if argnum = 3 then Register RCX
      else if argnum = 4 then Register R8
      else if argnum = 5 then Register R9
      else Stack ((int argnum - 6) * 8))"

datatype error = AssertFail | ReleaseAssertFail | AbortCalled

fun isClobberedByCall :: "location \<Rightarrow> error + bool" where
  "isClobberedByCall (Register r) = Inr (\<not> isCalleeSave r)"
| "isClobberedByCall (XMMRegister n) = Inr True"
| "isClobberedByCall (Scratch off) = Inr False"
| "isClobberedByCall (Stack off) = Inr False"
| "isClobberedByCall l = Inl ReleaseAssertFail"

subsection \<open>The assembler, as the rewriter sees it\<close>

datatype indirect = Indirect register int

datatype ConditionCode =
  COND_EQUAL | COND_NOT_EQUAL | COND_SIGN | COND_NOT_SIGN | COND_ZERO | COND_NOT_ZERO

datatype JumpDestination = fromStart int

datatype MovType = MovQ | MovL | MovB | MovZBL | MovSBL | MovZWL | MovSWL | MovZBQ | MovSBQ
  | MovZWQ | MovSWQ | MovSLQ

text \<open>The two encodings of a conditional jump: the short one, with a displacement of
  8 bits, and the one with a displacement of 32 bits.\<close>

datatype jmp_width = Rel8 | Rel32

text \<open>The instructions the modelled functions request from the assembler; the operands
  are in the order of the calls (source first, destination second).  A conditional jump
  carries the encoding that the assembler gives it.\<close>

datatype instr =
  MovRR register register
  | MovImm "64 word" register
  | MovMR indirect register
  | MovRM register indirect
  | Lea indirect register
  | ClearReg register
  | IncqMem indirect
  | IncqImm "64 word"
  | AddImmMem int indirect
  | JmpCond jmp_width JumpDestination ConditionCode
  | Nop
  | InclMem indirect
  | InclImm "64 word"
  | DecqMem indirect
  | CallqReg register
  | CallImm int
  | CallqMem indirect
  | ForwardJump ConditionCode
  | MovsdXM nat indirect
  | TestRR register register
  | CmpRI register int MovType

subsection \<open>Variables, actions and the rewriter\<close>

datatype RefType = UNKNOWN | OWNED | BORROWED

datatype ActionType = NORMAL | GUARD | MUTATION

record RewriterVar =
  locations :: "location list"
  is_constant :: bool
  constant_value :: "64 word"
  is_arg :: bool
  arg_loc :: location
  reftype :: RefType
  nullable :: bool
  uses :: "nat list"
  next_use :: nat
  num_refs_consumed :: nat
  last_refconsumed_numuses :: nat
  scratch_allocation :: "int \<times> int"
  attr_guards :: "(int \<times> 64 word \<times> bool) set"
  getattrs :: "(int \<times> MovType) \<Rightarrow> nat option"

text \<open>The closures that the collect phase enqueues, by the emitting function each one
  calls and the values it captures.\<close>

datatype emit_op =
  OpAddGuard nat nat bool
  | OpAddAttrGuard nat int nat bool
  | OpGetAttr nat nat int location MovType
  | OpSetAttr nat int nat MovType
  | OpIncref nat
  | OpDecref nat
  | OpXdecref nat
  | OpCall "nat option" bool bool "64 word" "nat list" "nat list" "nat list"
  | OpCheckAndThrowCAPIException nat int MovType

record RewriterAction =
  action :: emit_op
  consumed_refs :: "nat list"

text \<open>An entry of \<^verbatim>\<open>vars_by_location\<close>: a variable, or the sentinel
  \<^verbatim>\<open>LOCATION_PLACEHOLDER\<close>; a null pointer is \<open>None\<close>.\<close>

datatype var_ref = Var nat | LOCATION_PLACEHOLDER

text \<open>What the collaborators of the rewriter supply.  \<open>ICSlotRewrite\<close> holds the
  values read through \<^verbatim>\<open>rewrite->...\<close>: the size and the start address of the slot,
  the size of the scratch area and its offset from RSP, the return register, the registers
  that \<^verbatim>\<open>getICInfo()->getAllocatableRegs()\<close> yields (in iteration order), the address
  of \<^verbatim>\<open>picked_slot->num_inside\<close>, and \<open>instr_len\<close>, the number of bytes the slot's
  assembler writes for an instruction requested at a given offset.  \<open>runtime_layout\<close>
  holds the constants of the runtime: \<^verbatim>\<open>offsetof(Box, ob_refcnt)\<close>,
  \<^verbatim>\<open>offsetof(Box, cls)\<close>, \<^verbatim>\<open>offsetof(BoxedClass, tp_dealloc)\<close>, the address of
  \<^verbatim>\<open>Helper::xdecref\<close> and \<^verbatim>\<open>IC_INVALDITION_HEADER_SIZE\<close>.\<close>

record ICSlotRewrite =
  getSlotSize :: nat
  getSlotStart :: "64 word"
  getScratchSize :: int
  getScratchRspOffset :: int
  returnRegister :: location
  getAllocatableRegs :: "register list"
  num_inside_addr :: "64 word"
  instr_len :: "nat \<Rightarrow> instr \<Rightarrow> nat"

record runtime_layout =
  ob_refcnt_offset :: int
  ob_cls_offset :: int
  tp_dealloc_offset :: int
  xdecref_addr :: "64 word"
  IC_INVALDITION_HEADER_SIZE :: nat

text \<open>The fields of \<^verbatim>\<open>Rewriter\<close> that the modelled functions read or write;
  \<open>emitted\<close> and \<open>bytesWritten\<close> are the state of the assembler.\<close>

record Rewriter =
  rewrite :: ICSlotRewrite
  layout :: runtime_layout
  vars :: "RewriterVar list"
  vars_by_location :: "location \<Rightarrow> var_ref option"
  loader_consts :: "(64 word \<times> nat) list"
  actions :: "RewriterAction list"
  args :: "nat list"
  live_outs :: "nat list"
  live_out_regs :: "location list"
  return_location :: location
  allocatable_regs :: "register list"
  failed :: bool
  finished :: bool
  phase_emitting :: bool
  needs_invalidation_support :: bool
  added_changing_action :: bool
  marked_inside_ic :: bool
  last_guard_action :: int
  done_guarding :: bool
  current_action_idx :: int
  next_slot_jmps :: "(nat \<times> nat \<times> ConditionCode) list"
  decref_infos :: "(64 word \<times> location list) list"
  owned_attrs :: "(nat \<times> int) list"
  emitted :: "instr list"
  bytesWritten :: nat

definition emit :: "instr \<Rightarrow> Rewriter \<Rightarrow> Rewriter" where
  "emit i st = st\<lparr>emitted := emitted st @ [i],
                  bytesWritten := bytesWritten st + instr_len (rewrite st) (bytesWritten st) i\<rparr>"




text \<open>Modelled from the spec: \<^verbatim>\<open>Rewriter::isLargeConstant\<close> is defined in
  \<^verbatim>\<open>rewriter.h\<close>; section 4.3 of the specification: a value is large when it does
  not fit signed 32-bit.\<close>

definition isLargeConstant :: "64 word \<Rightarrow> bool" where
  "isLargeConstant val = (sint val < - (2 ^ 31) \<or> 2 ^ 31 - 1 < sint val)"

text \<open>Modelled from the spec: \<^verbatim>\<open>RewriterVar::isScratchAllocation\<close> is defined in
  \<^verbatim>\<open>rewriter.h\<close>; \<open>scratch_allocation\<close> is the pair (slot index, count) of a
  variable that owns a run of scratch slots, and (0, 0) otherwise.\<close>

definition isScratchAllocation :: "RewriterVar \<Rightarrow> bool" where
  "isScratchAllocation v = (snd (scratch_allocation v) > 0)"

definition isInLocation :: "RewriterVar \<Rightarrow> location \<Rightarrow> bool" where
  "isInLocation v l = (l \<in> set (locations v))"

definition getScratchLocation :: "RewriterVar \<Rightarrow> int \<Rightarrow> error + location" where
  "getScratchLocation v additional_offset_in_bytes =
     (if \<not> isScratchAllocation v then Inl AssertFail
      else Inr (Scratch (fst (scratch_allocation v) * 8 + additional_offset_in_bytes)))"

definition indirectFor :: "Rewriter \<Rightarrow> location \<Rightarrow> error + indirect" where
  "indirectFor st l =
     (case l of
        Scratch scratch_offset \<Rightarrow> Inr (Indirect RSP (getScratchRspOffset (rewrite st) + scratch_offset))
      | Stack stack_offset \<Rightarrow> Inr (Indirect RSP stack_offset)
      | _ \<Rightarrow> Inl AssertFail)"

subsection \<open>Location bookkeeping\<close>

definition stack_or_scratch :: "location \<Rightarrow> bool" where
  "stack_or_scratch l = (case l of Scratch off \<Rightarrow> True | Stack off \<Rightarrow> True | _ \<Rightarrow> False)"

definition addLocationToVar :: "nat \<Rightarrow> location \<Rightarrow> Rewriter \<Rightarrow> error + Rewriter" where
  "addLocationToVar v l st =
     (if failed st then Inr st
      else if isInLocation (vars st ! v) l then Inl AssertFail
      else if vars_by_location st l \<noteq> None then Inl AssertFail
      else if \<not> (case l of Register r \<Rightarrow> True | XMMRegister n \<Rightarrow> True | Scratch off \<Rightarrow> True
                   | Stack off \<Rightarrow> True | _ \<Rightarrow> False) then Inl AssertFail
      else
        let var = vars st ! v;
            var' = var\<lparr>locations := locations var @ [l]\<rparr>;
            count = (if is_constant var' \<and> \<not> isLargeConstant (constant_value var') then 1 else 0)
                    + length (filter stack_or_scratch (locations var'))
        in if count > (1::nat) then Inl AssertFail
           else Inr (st\<lparr>vars := (vars st)[v := var'],
                       vars_by_location := (vars_by_location st)(l \<mapsto> Var v)\<rparr>))"

definition removeLocationFromVar :: "nat \<Rightarrow> location \<Rightarrow> Rewriter \<Rightarrow> error + Rewriter" where
  "removeLocationFromVar v l st =
     (if \<not> isInLocation (vars st ! v) l then Inl AssertFail
      else if vars_by_location st l \<noteq> Some (Var v) then Inl AssertFail
      else
        let var = vars st ! v
        in Inr (st\<lparr>vars := (vars st)[v := var\<lparr>locations := remove1 l (locations var)\<rparr>],
                  vars_by_location := (vars_by_location st)(l := None)\<rparr>))"


subsection \<open>Scratch slots and spilling\<close>

text \<open>The offsets \<open>0, 8, 16, ...\<close> below \<open>scratch_size\<close>, which the loops of
  \<^verbatim>\<open>allocScratch\<close> and \<^verbatim>\<open>_allocate\<close> visit.\<close>

definition scratch_slots :: "int \<Rightarrow> location list" where
  "scratch_slots sz = map (\<lambda>k. Scratch (8 * int k)) [0 ..< nat ((sz + 7) div 8)]"

definition allocScratch :: "Rewriter \<Rightarrow> error + (location \<times> Rewriter)" where
  "allocScratch st =
     (if \<not> phase_emitting st then Inl AssertFail
      else case List.find (\<lambda>l. vars_by_location st l = None) (scratch_slots (getScratchSize (rewrite st))) of
             Some l \<Rightarrow> Inr (l, st)
           | None \<Rightarrow> Inr (NoneLoc, st\<lparr>failed := True\<rparr>))"

text \<open>The value of an error-or-result computation is passed on with \<open>rbind\<close>.\<close>

definition rbind :: "error + 'a \<Rightarrow> ('a \<Rightarrow> error + 'b) \<Rightarrow> error + 'b" where
  "rbind m f = (case m of Inl e \<Rightarrow> Inl e | Inr x \<Rightarrow> f x)"

definition preserve_ok :: "location \<Rightarrow> bool" where
  "preserve_ok preserve = (case preserve of Register r \<Rightarrow> True | AnyReg \<Rightarrow> True | _ \<Rightarrow> False)"

text \<open>\<^verbatim>\<open>Rewriter::spillRegister(assembler::Register reg, Location preserve)\<close>.  Reading
  a field through the sentinel \<^verbatim>\<open>LOCATION_PLACEHOLDER\<close> is outside the model and
  ends it with \<open>Inl AssertFail\<close> (the sentinel only ever stands at scratch slots).\<close>

definition spillRegister :: "register \<Rightarrow> location \<Rightarrow> Rewriter \<Rightarrow> error + Rewriter" where
  "spillRegister reg preserve st =
     (if \<not> preserve_ok preserve then Inl AssertFail
      else case vars_by_location st (Register reg) of
        None \<Rightarrow> Inl AssertFail
      | Some LOCATION_PLACEHOLDER \<Rightarrow> Inl AssertFail
      | Some (Var v) \<Rightarrow>
         (let var = vars st ! v in
          if length (locations var) > 1 \<or> is_constant var \<or> isScratchAllocation var
          then removeLocationFromVar v (Register reg) st
          else
            case List.find (\<lambda>new_reg. vars_by_location st (Register new_reg) = None
                                      \<and> Register new_reg \<noteq> preserve)
                           (filter isCalleeSave (allocatable_regs st)) of
              Some new_reg \<Rightarrow>
                rbind (addLocationToVar v (Register new_reg) (emit (MovRR reg new_reg) st))
                      (removeLocationFromVar v (Register reg))
            | None \<Rightarrow>
                rbind (allocScratch st) (\<lambda>(scratch, st1).
                  if failed st1 then Inr st1
                  else rbind (indirectFor st1 scratch) (\<lambda>mem.
                       rbind (addLocationToVar v scratch (emit (MovRM reg mem) st1))
                             (removeLocationFromVar v (Register reg))))))"

subsection \<open>Register allocation\<close>

text \<open>What the loop of \<^verbatim>\<open>allocReg\<close> over \<open>valid_registers\<close> leaves: the free
  register it returned from inside the loop, or the values of \<open>best\<close>, \<open>found\<close>
  and \<open>best_reg\<close> at its end.\<close>

datatype scan_result = FreeReg register | Best int bool register

text \<open>Reading \<^verbatim>\<open>uses[next_use]\<close> beyond the end of \<open>uses\<close> ends the model with
  \<open>Inl AssertFail\<close> (the bounds assertion of the vector).\<close>

fun allocReg_scan ::
  "Rewriter \<Rightarrow> location \<Rightarrow> register list \<Rightarrow> int \<Rightarrow> bool \<Rightarrow> register \<Rightarrow> error + scan_result" where
  "allocReg_scan st otherThan [] best found best_reg = Inr (Best best found best_reg)"
| "allocReg_scan st otherThan (reg # regs) best found best_reg =
     (if Register reg \<noteq> otherThan then
        (case vars_by_location st (Register reg) of
           None \<Rightarrow> Inr (FreeReg reg)
         | Some LOCATION_PLACEHOLDER \<Rightarrow> Inl AssertFail
         | Some (Var v) \<Rightarrow>
            (let var = vars st ! v in
             if \<not> done_guarding st \<and> is_arg var \<and> arg_loc var = Register reg
             then allocReg_scan st otherThan regs best found best_reg
             else if next_use var = length (uses var)
             then allocReg_scan st otherThan regs best found best_reg
             else if next_use var > length (uses var) then Inl AssertFail
             else if int (uses var ! next_use var) > best
             then allocReg_scan st otherThan regs (int (uses var ! next_use var)) True reg
             else allocReg_scan st otherThan regs best found best_reg))
      else allocReg_scan st otherThan regs best found best_reg)"

definition allocReg ::
  "location \<Rightarrow> location \<Rightarrow> register list \<Rightarrow> Rewriter \<Rightarrow> error + (register \<times> Rewriter)" where
  "allocReg dest otherThan valid_registers st =
     (if \<not> phase_emitting st then Inl AssertFail
      else case dest of
        AnyReg \<Rightarrow>
          rbind (allocReg_scan st otherThan valid_registers (- 1) False RAX) (\<lambda>r.
            case r of
              FreeReg reg \<Rightarrow> Inr (reg, st)
            | Best best found best_reg \<Rightarrow>
                if \<not> found then Inl AssertFail
                else rbind (spillRegister best_reg otherThan st) (\<lambda>st'.
                  if \<not> (failed st' \<or> vars_by_location st' (Register best_reg) = None)
                  then Inl AssertFail else Inr (best_reg, st')))
      | Register reg \<Rightarrow>
          if reg \<notin> set valid_registers then Inl AssertFail
          else rbind (if vars_by_location st (Register reg) \<noteq> None
                      then spillRegister reg otherThan st else Inr st) (\<lambda>st'.
                 if \<not> (failed st' \<or> vars_by_location st' (Register reg) = None)
                 then Inl AssertFail else Inr (reg, st'))
      | _ \<Rightarrow> Inl ReleaseAssertFail)"

subsection \<open>The constant loader\<close>

fun first_register :: "location list \<Rightarrow> register option" where
  "first_register [] = None"
| "first_register (Register r # ls) = Some r"
| "first_register (l # ls) = first_register ls"

text \<open>\<^verbatim>\<open>findConst\<close>: the result is \<open>Some\<close> register when \<open>found_value\<close> is set.\<close>

fun findConst_loop :: "RewriterVar list \<Rightarrow> (64 word \<times> nat) list \<Rightarrow> 64 word \<Rightarrow> register option" where
  "findConst_loop vs [] val = None"
| "findConst_loop vs (p # ps) val =
     (if fst p \<noteq> val then findConst_loop vs ps val
      else case first_register (locations (vs ! snd p)) of
             Some r \<Rightarrow> Some r
           | None \<Rightarrow> findConst_loop vs ps val)"

definition findConst :: "64 word \<Rightarrow> Rewriter \<Rightarrow> error + register option" where
  "findConst val st =
     (if \<not> phase_emitting st then Inl AssertFail
      else Inr (findConst_loop (vars st) (loader_consts st) val))"

definition tryRegRegMove :: "64 word \<Rightarrow> register \<Rightarrow> Rewriter \<Rightarrow> error + (bool \<times> Rewriter)" where
  "tryRegRegMove val dst_reg st =
     (if \<not> phase_emitting st then Inl AssertFail
      else rbind (findConst val st) (\<lambda>found.
        case found of
          Some src_reg \<Rightarrow>
            Inr (True, if src_reg \<noteq> dst_reg then emit (MovRR src_reg dst_reg) st else st)
        | None \<Rightarrow> Inr (False, st)))"

text \<open>The loop of \<^verbatim>\<open>tryLea\<close> over the register numbers: the register and the offset
  of the \<^verbatim>\<open>lea\<close>, if a register holds a constant near enough.\<close>

fun tryLea_loop :: "Rewriter \<Rightarrow> 64 word \<Rightarrow> register list \<Rightarrow> error + (register \<times> 64 word) option" where
  "tryLea_loop st val [] = Inr None"
| "tryLea_loop st val (reg # regs) =
     (case vars_by_location st (Register reg) of
        None \<Rightarrow> tryLea_loop st val regs
      | Some LOCATION_PLACEHOLDER \<Rightarrow> Inl AssertFail
      | Some (Var v) \<Rightarrow>
          if \<not> is_constant (vars st ! v) then tryLea_loop st val regs
          else let offset = val - constant_value (vars st ! v)
               in if isLargeConstant offset then tryLea_loop st val regs
                  else Inr (Some (reg, offset)))"

definition tryLea :: "64 word \<Rightarrow> register \<Rightarrow> Rewriter \<Rightarrow> error + (bool \<times> Rewriter)" where
  "tryLea val dst_reg st =
     (if \<not> phase_emitting st then Inl AssertFail
      else if isLargeConstant val then
        rbind (tryLea_loop st val all_registers) (\<lambda>r.
          case r of
            Some (reg, offset) \<Rightarrow> Inr (True, emit (Lea (Indirect reg (sint offset)) dst_reg) st)
          | None \<Rightarrow> Inr (False, st))
      else Inr (False, st))"

definition moveImmediate :: "64 word \<Rightarrow> register \<Rightarrow> Rewriter \<Rightarrow> error + Rewriter" where
  "moveImmediate val dst_reg st =
     (if \<not> phase_emitting st then Inl AssertFail else Inr (emit (MovImm val dst_reg) st))"

definition loadConstIntoReg :: "64 word \<Rightarrow> register \<Rightarrow> Rewriter \<Rightarrow> error + Rewriter" where
  "loadConstIntoReg val dst_reg st =
     (if \<not> phase_emitting st then Inl AssertFail
      else if val = 0 then Inr (emit (ClearReg dst_reg) st)
      else rbind (tryRegRegMove val dst_reg st) (\<lambda>(moved, st1).
        if moved then Inr st1
        else rbind (tryLea val dst_reg st1) (\<lambda>(done_lea, st2).
          if done_lea then Inr st2
          else moveImmediate val dst_reg st2)))"


subsection \<open>Bringing a variable into a register\<close>

text \<open>\<^verbatim>\<open>RewriterVar::getInReg(dest, allow_constant_in_reg, otherThan)\<close>; the two-argument
  \<^verbatim>\<open>allocReg\<close> it calls passes the rewriter's \<open>allocatable_regs\<close>.  The functions
  that the source names with a leading underscore carry the prefix \<open>rw\<close> here.\<close>

definition getInReg ::
  "nat \<Rightarrow> location \<Rightarrow> bool \<Rightarrow> location \<Rightarrow> Rewriter \<Rightarrow> error + (register \<times> Rewriter)" where
  "getInReg v dest allow_constant_in_reg otherThan st =
     (let var = vars st ! v in
      if \<not> preserve_ok dest then Inl AssertFail
      else if \<not> allow_constant_in_reg
              \<and> \<not> (\<not> is_constant var \<or> isLargeConstant (constant_value var)) then Inl AssertFail
      else if locations var = [] \<and> is_constant var then
        rbind (allocReg dest otherThan (allocatable_regs st) st) (\<lambda>(reg, st1).
        rbind (loadConstIntoReg (constant_value var) reg st1) (\<lambda>st2.
        rbind (addLocationToVar v (Register reg) st2) (\<lambda>st3. Inr (reg, st3))))
      else if locations var = [] \<and> isScratchAllocation var then
        rbind (allocReg dest otherThan (allocatable_regs st) st) (\<lambda>(reg, st1).
        rbind (getScratchLocation var 0) (\<lambda>l.
        rbind (indirectFor st1 l) (\<lambda>addr.
        rbind (addLocationToVar v (Register reg) (emit (Lea addr reg) st1)) (\<lambda>st3.
          Inr (reg, st3)))))
      else if locations var = [] then Inl AssertFail
      else if dest \<in> set (locations var) then
        (case dest of Register r \<Rightarrow> Inr (r, st) | _ \<Rightarrow> Inl AssertFail)
      else
        case first_register (locations var) of
          Some reg \<Rightarrow>
            (case dest of
               Register dest_reg \<Rightarrow>
                 rbind (allocReg dest otherThan (allocatable_regs st) st) (\<lambda>(r0, st1).
                 rbind (addLocationToVar v (Register dest_reg) (emit (MovRR reg dest_reg) st1))
                   (\<lambda>st2. Inr (dest_reg, st2)))
             | _ \<Rightarrow> if Register reg = otherThan then Inl AssertFail else Inr (reg, st))
        | None \<Rightarrow>
            if length (locations var) \<noteq> 1 then Inl AssertFail
            else
              let l = hd (locations var) in
              rbind (allocReg dest otherThan (allocatable_regs st) st) (\<lambda>(reg, st1).
                if failed st1 then Inr (reg, st1)
                else if vars_by_location st1 (Register reg) \<noteq> None then Inl AssertFail
                else if stack_or_scratch l then
                  rbind (indirectFor st1 l) (\<lambda>mem.
                  rbind (addLocationToVar v (Register reg) (emit (MovMR mem reg) st1)) (\<lambda>st2.
                    Inr (reg, st2)))
                else Inl AbortCalled))"

subsection \<open>Reference counts\<close>

text \<open>\<^verbatim>\<open>Rewriter::_incref(var, num_refs)\<close>.\<close>

definition rw_incref :: "nat \<Rightarrow> int \<Rightarrow> Rewriter \<Rightarrow> error + Rewriter" where
  "rw_incref v num_refs st =
     (let var = vars st ! v in
      if \<not> num_refs > 0 then Inl AssertFail
      else if is_constant var \<and> constant_value var = 0 then Inr st
      else if nullable var then Inl AssertFail
      else if is_constant var \<and> \<not> isLargeConstant (constant_value var) then
        Inr ((emit (IncqImm (constant_value var + word_of_int (ob_refcnt_offset (layout st))))
                ^^ nat num_refs) st)
      else
        rbind (getInReg v AnyReg False AnyReg st) (\<lambda>(reg, st1).
          if num_refs = 1 then Inr (emit (IncqMem (Indirect reg (ob_refcnt_offset (layout st)))) st1)
          else Inr (emit (AddImmMem num_refs (Indirect reg (ob_refcnt_offset (layout st)))) st1)))"

definition refHandedOff :: "RewriterVar \<Rightarrow> bool" where
  "refHandedOff var =
     (reftype var = OWNED \<and> num_refs_consumed var > 0
      \<and> last_refconsumed_numuses var = length (uses var))"

text \<open>The loop over \<^verbatim>\<open>actions[i].consumed_refs\<close> at the head of the emit loop of
  \<^verbatim>\<open>commit()\<close>: \<open>skip_incref\<close> is the test that ends in \<^verbatim>\<open>continue\<close>.\<close>

definition skip_incref :: "nat \<Rightarrow> RewriterVar \<Rightarrow> error + bool" where
  "skip_incref i var =
     (if refHandedOff var then
        if \<not> (last_refconsumed_numuses var > 0
               \<and> last_refconsumed_numuses var \<le> length (uses var)) then Inl AssertFail
        else
          let last_used_action_id = uses var ! (last_refconsumed_numuses var - 1) in
          if last_used_action_id = i then Inr True
          else if \<not> last_used_action_id \<ge> i then Inl AssertFail
          else Inr False
      else Inr False)"

fun commit_increfs :: "nat \<Rightarrow> nat list \<Rightarrow> Rewriter \<Rightarrow> error + Rewriter" where
  "commit_increfs i [] st = Inr st"
| "commit_increfs i (v # vs) st =
     (case skip_incref i (vars st ! v) of
        Inl e \<Rightarrow> Inl e
      | Inr skip \<Rightarrow>
          if skip then commit_increfs i vs st
          else if \<not> done_guarding st then Inl AssertFail
          else (case rw_incref v 1 st of
                  Inl e \<Rightarrow> Inl e
                | Inr st' \<Rightarrow> commit_increfs i vs st'))"


subsection \<open>Decref information for the unwinder\<close>

text \<open>\<^verbatim>\<open>RewriterVar::needsDecref(current_action_index)\<close>.  Reading \<open>uses\<close> outside
  its bounds ends the model with \<open>Inl AssertFail\<close>.\<close>

definition needsDecref :: "Rewriter \<Rightarrow> RewriterVar \<Rightarrow> int \<Rightarrow> error + bool" where
  "needsDecref st var current_action_index =
     (if \<not> phase_emitting st then Inl AssertFail
      else if reftype var \<noteq> OWNED then Inr False
      else if num_refs_consumed var = 0 then Inr True
      else if last_refconsumed_numuses var = 0
              \<or> last_refconsumed_numuses var > length (uses var) then Inl AssertFail
      else
        let reference_handed_off_action_index = int (uses var ! (last_refconsumed_numuses var - 1))
        in if reference_handed_off_action_index = current_action_index then Inr False
           else Inr True)"

text \<open>The inner loop of \<^verbatim>\<open>getDecrefLocations\<close> over the locations of one variable:
  the entry it appends, or \<open>None\<close> when \<open>found_location\<close> stays false.\<close>

fun decref_location :: "Rewriter \<Rightarrow> location list \<Rightarrow> error + location option" where
  "decref_location st [] = Inr None"
| "decref_location st (l # ls) =
     (case l of
        Scratch off \<Rightarrow>
          (case indirectFor st l of
             Inl e \<Rightarrow> Inl e
           | Inr (Indirect base offset) \<Rightarrow> Inr (Some (Stack offset)))
      | Register r \<Rightarrow>
          (case isClobberedByCall l of
             Inl e \<Rightarrow> Inl e
           | Inr clobbered \<Rightarrow> if clobbered then decref_location st ls else Inr (Some l))
      | _ \<Rightarrow> Inl ReleaseAssertFail)"

text \<open>The loop over \<open>vars\<close>: the entries so far and the value of \<open>failed\<close>.\<close>

fun decref_vars_loop ::
  "Rewriter \<Rightarrow> RewriterVar list \<Rightarrow> location list \<Rightarrow> bool \<Rightarrow> error + (location list \<times> bool)" where
  "decref_vars_loop st [] acc f = Inr (acc, f)"
| "decref_vars_loop st (var # vs) acc f =
     (if locations var \<noteq> [] then
        (case needsDecref st var (current_action_idx st) of
           Inl e \<Rightarrow> Inl e
         | Inr nd \<Rightarrow>
             if nd then
               (case decref_location st (locations var) of
                  Inl e \<Rightarrow> Inl e
                | Inr (Some l) \<Rightarrow> decref_vars_loop st vs (acc @ [l]) f
                | Inr None \<Rightarrow> decref_vars_loop st vs acc True)
             else decref_vars_loop st vs acc f)
      else decref_vars_loop st vs acc f)"

text \<open>The loop over \<open>owned_attrs\<close>.\<close>

fun owned_attrs_loop :: "Rewriter \<Rightarrow> (nat \<times> int) list \<Rightarrow> error + location list" where
  "owned_attrs_loop st [] = Inr []"
| "owned_attrs_loop st (p # ps) =
     (let var = vars st ! fst p in
      if \<not> (length (locations var) > 0 \<or> isScratchAllocation var) then Inl AssertFail
      else if \<not> (length (locations var) = 1 \<or> isScratchAllocation var) then Inl AssertFail
      else
        case (if locations var \<noteq> []
              then (if stack_or_scratch (hd (locations var)) then Inr (hd (locations var))
                    else Inl AssertFail)
              else getScratchLocation var 0) of
          Inl e \<Rightarrow> Inl e
        | Inr l \<Rightarrow>
            (case indirectFor st l of
               Inl e \<Rightarrow> Inl e
             | Inr (Indirect base offset1) \<Rightarrow>
                 (case owned_attrs_loop st ps of
                    Inl e \<Rightarrow> Inl e
                  | Inr rest \<Rightarrow> Inr (StackIndirect offset1 (snd p) # rest))))"

definition getDecrefLocations :: "Rewriter \<Rightarrow> error + (location list \<times> Rewriter)" where
  "getDecrefLocations st =
     rbind (decref_vars_loop st (vars st) [] (failed st)) (\<lambda>(infos, f).
     rbind (owned_attrs_loop st (owned_attrs st)) (\<lambda>attrs.
       Inr (infos @ attrs, st\<lparr>failed := f\<rparr>)))"

definition registerDecrefInfoHere :: "Rewriter \<Rightarrow> error + Rewriter" where
  "registerDecrefInfoHere st =
     rbind (getDecrefLocations st) (\<lambda>(decref_locations, st1).
       let call_offset = bytesWritten st1;
           ip = getSlotStart (rewrite st1) + of_nat call_offset
       in Inr (st1\<lparr>decref_infos := decref_infos st1 @ [(ip, decref_locations)]\<rparr>))"

subsection \<open>Guard jumps\<close>




subsection \<open>The collect phase\<close>

text \<open>Modelled from the spec: the constructor of \<^verbatim>\<open>RewriterVar\<close> is in
  \<^verbatim>\<open>rewriter.h\<close>.  A new variable has no location, no use, no constant, the
  reference type \<open>UNKNOWN\<close> and no scratch allocation (section 3 of the
  specification).\<close>

definition new_var :: RewriterVar where
  "new_var =
     \<lparr>locations = [], is_constant = False, constant_value = 0, is_arg = False,
      arg_loc = Uninitialized, reftype = UNKNOWN, nullable = False, uses = [], next_use = 0,
      num_refs_consumed = 0, last_refconsumed_numuses = 0, scratch_allocation = (0, 0),
      attr_guards = {}, getattrs = (\<lambda>k. None)\<rparr>"

text \<open>\<^verbatim>\<open>Rewriter::createNewVar\<close>: the result is the new variable and the rewriter.\<close>

definition createNewVar :: "Rewriter \<Rightarrow> error + (nat \<times> Rewriter)" where
  "createNewVar st =
     (if phase_emitting st then Inl AssertFail
      else Inr (length (vars st), st\<lparr>vars := vars st @ [new_var]\<rparr>))"

definition createNewConstantVar :: "64 word \<Rightarrow> Rewriter \<Rightarrow> error + (nat \<times> Rewriter)" where
  "createNewConstantVar val st =
     rbind (createNewVar st) (\<lambda>(var, st1).
       Inr (var, st1\<lparr>vars := (vars st1)[var := (vars st1 ! var)\<lparr>is_constant := True,
                                                                constant_value := val\<rparr>]\<rparr>))"

definition loadConst :: "64 word \<Rightarrow> Rewriter \<Rightarrow> error + (nat \<times> Rewriter)" where
  "loadConst val st =
     (case List.find (\<lambda>p. fst p = val) (loader_consts st) of
        Some p \<Rightarrow> Inr (snd p, st)
      | None \<Rightarrow>
          rbind (createNewConstantVar val st) (\<lambda>(const_loader_var, st1).
            Inr (const_loader_var,
                 st1\<lparr>loader_consts := loader_consts st1 @ [(val, const_loader_var)]\<rparr>)))"

text \<open>Modelled from the spec: \<^verbatim>\<open>Rewriter::addAction\<close> is defined in
  \<^verbatim>\<open>rewriter.h\<close>.  Sections 3 and 4.1 of the specification: an action is enqueued
  with its input variables; the index of the action is appended to the \<open>uses\<close> of each
  of them; a mutating action sets \<open>added_changing_action\<close>; a guard sets
  \<open>last_guard_action\<close> to its index.  The list of consumed references of a new action
  is empty.\<close>

definition add_use :: "nat \<Rightarrow> RewriterVar list \<Rightarrow> nat \<Rightarrow> RewriterVar list" where
  "add_use idx vl v = vl[v := (vl ! v)\<lparr>uses := uses (vl ! v) @ [idx]\<rparr>]"

definition addAction :: "emit_op \<Rightarrow> nat list \<Rightarrow> ActionType \<Rightarrow> Rewriter \<Rightarrow> Rewriter" where
  "addAction a vs type st =
     (let idx = length (actions st);
          st1 = st\<lparr>vars := foldl (add_use idx) (vars st) vs\<rparr>;
          st2 = (case type of
                   MUTATION \<Rightarrow> st1\<lparr>added_changing_action := True\<rparr>
                 | GUARD \<Rightarrow> st1\<lparr>last_guard_action := int idx\<rparr>
                 | NORMAL \<Rightarrow> st1)
      in st2\<lparr>actions := actions st2 @ [\<lparr>action = a, consumed_refs = []\<rparr>]\<rparr>)"

text \<open>\<^verbatim>\<open>RewriterVar::addGuard(val)\<close>; \<^verbatim>\<open>isConstant()\<close> reads \<open>is_constant\<close>.\<close>

definition addGuard :: "nat \<Rightarrow> 64 word \<Rightarrow> Rewriter \<Rightarrow> error + Rewriter" where
  "addGuard v val st =
     (if is_constant (vars st ! v) then
        (if constant_value (vars st ! v) = val then Inr st else Inl ReleaseAssertFail)
      else
        rbind (loadConst val st) (\<lambda>(val_var, st1).
          Inr (addAction (OpAddGuard v val_var False) [v, val_var] GUARD st1)))"

text \<open>\<^verbatim>\<open>RewriterVar::addAttrGuard(offset, val, negate)\<close>.\<close>

definition addAttrGuard :: "nat \<Rightarrow> int \<Rightarrow> 64 word \<Rightarrow> bool \<Rightarrow> Rewriter \<Rightarrow> error + Rewriter" where
  "addAttrGuard v offset val negate st =
     (if (offset, val, negate) \<in> attr_guards (vars st ! v) then Inr st
      else
        let var = vars st ! v;
            st0 = st\<lparr>vars := (vars st)[v := var\<lparr>attr_guards :=
                                                    insert (offset, val, negate) (attr_guards var)\<rparr>]\<rparr>
        in rbind (loadConst val st0) (\<lambda>(val_var, st1).
             Inr (addAction (OpAddAttrGuard v offset val_var negate) [v, val_var] GUARD st1)))"

text \<open>\<^verbatim>\<open>RewriterVar::getAttr(offset, dest, type)\<close>: the result is the variable it
  returns and the rewriter.\<close>

definition getAttr ::
  "nat \<Rightarrow> int \<Rightarrow> location \<Rightarrow> MovType \<Rightarrow> Rewriter \<Rightarrow> error + (nat \<times> Rewriter)" where
  "getAttr v offset dest type st =
     (if \<not> added_changing_action st then
        (case getattrs (vars st ! v) (offset, type) of
           Some result \<Rightarrow>
             if dest \<noteq> AnyReg
             then rbind (getInReg result dest True AnyReg st) (\<lambda>(reg, st1). Inr (result, st1))
             else Inr (result, st)
         | None \<Rightarrow>
             rbind (createNewVar st) (\<lambda>(result, st1).
               let var = vars st1 ! v;
                   st2 = st1\<lparr>vars := (vars st1)[v := var\<lparr>getattrs :=
                                  (getattrs var)((offset, type) \<mapsto> result)\<rparr>]\<rparr>
               in Inr (result, addAction (OpGetAttr result v offset dest type) [v] NORMAL st2)))
      else
        rbind (createNewVar st) (\<lambda>(result, st1).
          Inr (result, addAction (OpGetAttr result v offset dest type) [v] NORMAL st1)))"

text \<open>\<^verbatim>\<open>RewriterVar::setAttr(offset, val, type, store_wide)\<close>; \<open>type_known\<close> says that
  the \<^verbatim>\<open>SetattrType\<close> argument is not \<^verbatim>\<open>UNKNOWN\<close>.\<close>

definition setAttr :: "nat \<Rightarrow> int \<Rightarrow> nat \<Rightarrow> bool \<Rightarrow> MovType \<Rightarrow> Rewriter \<Rightarrow> error + Rewriter" where
  "setAttr v offset val type_known store_wide st =
     (if reftype (vars st ! val) = OWNED \<and> \<not> type_known then Inl AssertFail
      else if \<not> (store_wide = MovQ \<or> \<not> type_known) then Inl AssertFail
      else Inr (addAction (OpSetAttr v offset val store_wide) [v, val] MUTATION st))"

text \<open>\<^verbatim>\<open>RewriterVar::incref\<close>, \<^verbatim>\<open>decref\<close> and \<^verbatim>\<open>xdecref\<close>: each enqueues
  a mutating action.\<close>

definition incref :: "nat \<Rightarrow> Rewriter \<Rightarrow> Rewriter" where
  "incref v st = addAction (OpIncref v) [v] MUTATION st"

definition decref :: "nat \<Rightarrow> Rewriter \<Rightarrow> Rewriter" where
  "decref v st = addAction (OpDecref v) [v] MUTATION st"

definition xdecref :: "nat \<Rightarrow> Rewriter \<Rightarrow> Rewriter" where
  "xdecref v st = addAction (OpXdecref v) [v] MUTATION st"


subsection \<open>Calls\<close>

text \<open>\<^verbatim>\<open>Rewriter::spillRegister(assembler::XMMRegister reg)\<close>.\<close>

definition spillRegisterXMM :: "nat \<Rightarrow> Rewriter \<Rightarrow> error + Rewriter" where
  "spillRegisterXMM reg st =
     (if \<not> phase_emitting st then Inl AssertFail
      else case vars_by_location st (XMMRegister reg) of
        None \<Rightarrow> Inl AssertFail
      | Some LOCATION_PLACEHOLDER \<Rightarrow> Inl AssertFail
      | Some (Var v) \<Rightarrow>
          if length (locations (vars st ! v)) \<noteq> 1 then Inl AssertFail
          else rbind (allocScratch st) (\<lambda>(scratch, st1).
               rbind (indirectFor st1 scratch) (\<lambda>mem.
               rbind (addLocationToVar v scratch (emit (MovsdXM reg mem) st1))
                     (removeLocationFromVar v (XMMRegister reg)))))"

definition tryGetAsImmediate :: "RewriterVar \<Rightarrow> bool \<times> 64 word" where
  "tryGetAsImmediate var =
     (if is_constant var \<and> \<not> isLargeConstant (constant_value var)
      then (True, constant_value var) else (False, 0))"

text \<open>Modelled from the spec: \<^verbatim>\<open>RewriterVar::isDoneUsing\<close> is defined in
  \<^verbatim>\<open>rewriter.h\<close>; the uses of a variable are exhausted when
  \<open>next_use = uses.size()\<close> (section 3 of the specification).\<close>

definition isDoneUsing :: "RewriterVar \<Rightarrow> bool" where
  "isDoneUsing var = (next_use var = length (uses var))"

text \<open>A no-op is one byte.\<close>

definition emit_nop :: "Rewriter \<Rightarrow> Rewriter" where
  "emit_nop st = st\<lparr>emitted := emitted st @ [Nop], bytesWritten := bytesWritten st + 1\<rparr>"

function pad_nops :: "Rewriter \<Rightarrow> Rewriter" where
  "pad_nops st =
     (if bytesWritten st < IC_INVALDITION_HEADER_SIZE (layout st) then pad_nops (emit_nop st) else st)"
  by pat_completeness auto
termination
  by (relation "measure (\<lambda>st. IC_INVALDITION_HEADER_SIZE (layout st) - bytesWritten st)")
     (auto simp: emit_nop_def)

definition mark_inside_ic :: "bool \<Rightarrow> location \<Rightarrow> Rewriter \<Rightarrow> error + Rewriter" where
  "mark_inside_ic has_side_effects preserve st =
     (if has_side_effects \<and> needs_invalidation_support st \<and> \<not> marked_inside_ic st then
        rbind (let counter_addr = num_inside_addr (rewrite st) in
               if isLargeConstant counter_addr then
                 rbind (allocReg AnyReg preserve (allocatable_regs st) st) (\<lambda>(reg, st1).
                 rbind (loadConstIntoReg counter_addr reg st1) (\<lambda>st2.
                   Inr (emit (InclMem (Indirect reg 0)) st2)))
               else Inr (emit (InclImm counter_addr) st))
          (\<lambda>st3. Inr (st3\<lparr>marked_inside_ic := True\<rparr>))
      else Inr st)"

text \<open>The loop of \<^verbatim>\<open>_setupCall\<close> over the arguments; the flag of the result says
  that the function returned from inside the loop.\<close>

fun setupCall_args :: "nat \<Rightarrow> nat list \<Rightarrow> location \<Rightarrow> Rewriter \<Rightarrow> error + (bool \<times> Rewriter)" where
  "setupCall_args i [] preserve st = Inr (False, st)"
| "setupCall_args i (var # rest) preserve st =
     (let l = forArg i in
      case (if \<not> isInLocation (vars st ! var) l then
              (case l of
                 Register r \<Rightarrow>
                   (case allocReg l preserve (allocatable_regs st) st of
                      Inl e \<Rightarrow> Inl e
                    | Inr (r2, st1) \<Rightarrow>
                        if failed st1 then Inr (True, st1)
                        else if r \<noteq> r2 then Inl AssertFail
                        else if vars_by_location st1 l \<noteq> None then Inl AssertFail
                        else
                          let (is_immediate, imm) = tryGetAsImmediate (vars st1 ! var) in
                          if is_immediate then
                            rbind (addLocationToVar var l
                                     (if imm = 0 then emit (ClearReg r) st1
                                      else emit (MovImm imm r) st1))
                                  (\<lambda>st2. Inr (False, st2))
                          else
                            rbind (getInReg var l False AnyReg st1) (\<lambda>(r2', st2).
                              if \<not> isInLocation (vars st2 ! var) (Register r2') then Inl AssertFail
                              else if r2' \<noteq> r then Inl AssertFail
                              else Inr (False, st2)))
               | _ \<Rightarrow> Inl AssertFail)
            else Inr (False, st)) of
        Inl e \<Rightarrow> Inl e
      | Inr (returned, st') \<Rightarrow>
          if returned then Inr (True, st')
          else if \<not> isInLocation (vars st' ! var) (forArg i) then Inl AssertFail
          else setupCall_args (Suc i) rest preserve st')"

fun need_to_spill_of :: "location list \<Rightarrow> error + bool" where
  "need_to_spill_of [] = Inr True"
| "need_to_spill_of (l # ls) =
     (case isClobberedByCall l of
        Inl e \<Rightarrow> Inl e
      | Inr clobbered \<Rightarrow> if \<not> clobbered then Inr False else need_to_spill_of ls)"

text \<open>The loop of \<^verbatim>\<open>_setupCall\<close> over \<open>caller_save_registers\<close>.\<close>

fun setupCall_spill ::
  "location list \<Rightarrow> nat list \<Rightarrow> location \<Rightarrow> Rewriter \<Rightarrow> error + (bool \<times> Rewriter)" where
  "setupCall_spill [] call_args preserve st = Inr (False, st)"
| "setupCall_spill (check_reg # rest) call_args preserve st =
     (case vars_by_location st check_reg of
        None \<Rightarrow> setupCall_spill rest call_args preserve st
      | Some LOCATION_PLACEHOLDER \<Rightarrow> Inl AssertFail
      | Some (Var v) \<Rightarrow>
          (case need_to_spill_of (locations (vars st ! v)) of
             Inl e \<Rightarrow> Inl e
           | Inr need0 \<Rightarrow>
               if need0 \<and> \<not> (v \<in> set call_args \<and> isDoneUsing (vars st ! v)) then
                 (case (case check_reg of
                          Register r \<Rightarrow> spillRegister r preserve st
                        | XMMRegister n \<Rightarrow>
                            if length (locations (vars st ! v)) \<noteq> 1 then Inl AssertFail
                            else spillRegisterXMM n st
                        | _ \<Rightarrow> Inl AssertFail) of
                    Inl e \<Rightarrow> Inl e
                  | Inr st1 \<Rightarrow>
                      if failed st1 then Inr (True, st1)
                      else setupCall_spill rest call_args preserve st1)
               else
                 (case removeLocationFromVar v check_reg st of
                    Inl e \<Rightarrow> Inl e
                  | Inr st1 \<Rightarrow> setupCall_spill rest call_args preserve st1)))"

fun bump_all :: "(nat \<Rightarrow> Rewriter \<Rightarrow> error + Rewriter) \<Rightarrow> nat list \<Rightarrow> Rewriter \<Rightarrow> error + Rewriter" where
  "bump_all f [] st = Inr st"
| "bump_all f (v # vs) st = (case f v st of Inl e \<Rightarrow> Inl e | Inr st' \<Rightarrow> bump_all f vs st')"

text \<open>\<^verbatim>\<open>Rewriter::_setupCall\<close>.  \<^verbatim>\<open>RewriterVar::bumpUseEarlyIfPossible\<close> is defined
  in \<^verbatim>\<open>rewriter.h\<close>; it is the parameter \<open>bumpUseEarlyIfPossible\<close>.\<close>

definition rw_setupCall ::
  "(nat \<Rightarrow> Rewriter \<Rightarrow> error + Rewriter) \<Rightarrow> bool \<Rightarrow> nat list \<Rightarrow> nat list \<Rightarrow> location \<Rightarrow> nat list
     \<Rightarrow> Rewriter \<Rightarrow> error + Rewriter" where
  "rw_setupCall bumpUseEarlyIfPossible has_side_effects call_args args_xmm preserve
       bump_if_possible st =
     (if has_side_effects \<and> \<not> done_guarding st then Inl AssertFail
      else
        rbind (mark_inside_ic has_side_effects preserve
                 (if has_side_effects then pad_nops st else st)) (\<lambda>st2.
        rbind (setupCall_args 0 call_args preserve st2) (\<lambda>(returned, st3).
          if returned then Inr st3
          else if \<not> list_all (\<lambda>(i, a). isInLocation (vars st3 ! a) (XMMRegister i))
                       (zip [0 ..< length args_xmm] args_xmm) then Inl AssertFail
          else if \<not> list_all (\<lambda>(i, a). isInLocation (vars st3 ! a) (forArg i))
                       (zip [0 ..< length call_args] call_args) then Inl AssertFail
          else
            rbind (bump_all bumpUseEarlyIfPossible bump_if_possible st3) (\<lambda>st4.
            rbind (setupCall_spill caller_save_registers call_args preserve st4)
              (\<lambda>(returned', st5).
                if returned' then Inr st5
                else if \<not> list_all (\<lambda>l. vars_by_location st5 l = None) caller_save_registers
                then Inl AssertFail
                else Inr st5)))))"

text \<open>\<^verbatim>\<open>Rewriter::_callOptimalEncoding\<close>: the address of the next instruction in the
  slot is \<open>slot_start + bytesWritten\<close>.  The assertion on the length of the direct call
  is the assembler's.\<close>

definition rw_callOptimalEncoding :: "register \<Rightarrow> 64 word \<Rightarrow> Rewriter \<Rightarrow> error + Rewriter" where
  "rw_callOptimalEncoding tmp_reg func_addr st =
     (if vars_by_location st (Register tmp_reg) \<noteq> None then Inl AssertFail
      else
        let real_asm_address = getSlotStart (rewrite st) + of_nat (bytesWritten st) + 5;
            offset = func_addr - real_asm_address
        in if isLargeConstant offset then
             rbind (loadConstIntoReg func_addr tmp_reg st) (\<lambda>st1. Inr (emit (CallqReg tmp_reg) st1))
           else Inr (emit (CallImm (sint offset)) st))"

text \<open>\<^verbatim>\<open>Rewriter::_decref(var, vars_to_bump)\<close>; \<^verbatim>\<open>bumpUseLateIfNecessary\<close> is
  defined in \<^verbatim>\<open>rewriter.h\<close> and is a parameter as well.  The \<^verbatim>\<open>ForwardJump\<close>
  object requests the conditional jump over the two instructions that follow it.\<close>

definition rw_decref ::
  "(nat \<Rightarrow> Rewriter \<Rightarrow> error + Rewriter) \<Rightarrow> (nat \<Rightarrow> Rewriter \<Rightarrow> error + Rewriter) \<Rightarrow> nat \<Rightarrow> nat list
     \<Rightarrow> Rewriter \<Rightarrow> error + Rewriter" where
  "rw_decref bumpUseEarlyIfPossible bumpUseLateIfNecessary var vars_to_bump st =
     (if nullable (vars st ! var) then Inl AssertFail
      else
        rbind (rw_setupCall bumpUseEarlyIfPossible True [var] [] (Register RAX) vars_to_bump st)
          (\<lambda>st1.
            let reg = RDI;
                st2 = emit (DecqMem (Indirect reg (ob_refcnt_offset (layout st1)))) st1;
                st3 = emit (ForwardJump COND_NOT_ZERO) st2;
                st4 = emit (MovMR (Indirect reg (ob_cls_offset (layout st3))) RAX) st3;
                st5 = emit (CallqMem (Indirect RAX (tp_dealloc_offset (layout st4)))) st4
            in bump_all bumpUseLateIfNecessary vars_to_bump st5))"

text \<open>\<^verbatim>\<open>Rewriter::_call\<close> with \<open>result == NULL\<close>, as \<^verbatim>\<open>_xdecref\<close> calls it.\<close>

definition rw_call_no_result ::
  "(nat \<Rightarrow> Rewriter \<Rightarrow> error + Rewriter) \<Rightarrow> (nat \<Rightarrow> Rewriter \<Rightarrow> error + Rewriter) \<Rightarrow> bool \<Rightarrow> bool
     \<Rightarrow> 64 word \<Rightarrow> nat list \<Rightarrow> nat list \<Rightarrow> nat list \<Rightarrow> Rewriter \<Rightarrow> error + Rewriter" where
  "rw_call_no_result bumpUseEarlyIfPossible bumpUseLateIfNecessary has_side_effects can_throw
       func_addr call_args args_xmm vars_to_bump st =
     rbind (allocReg (Register R11) AnyReg (allocatable_regs st) st) (\<lambda>(r, st1).
       if failed st1 then Inr st1
       else
         rbind (rw_setupCall bumpUseEarlyIfPossible has_side_effects call_args args_xmm
                  (Register R11) vars_to_bump st1) (\<lambda>st2.
         rbind (rw_callOptimalEncoding r func_addr st2) (\<lambda>st3.
         rbind (if can_throw then registerDecrefInfoHere st3 else Inr st3) (\<lambda>st4.
           if \<not> failed st4 \<and> vars_by_location st4 (Register RAX) \<noteq> None then Inl AssertFail
           else bump_all bumpUseLateIfNecessary vars_to_bump st4))))"

definition rw_xdecref ::
  "(nat \<Rightarrow> Rewriter \<Rightarrow> error + Rewriter) \<Rightarrow> (nat \<Rightarrow> Rewriter \<Rightarrow> error + Rewriter) \<Rightarrow> nat \<Rightarrow> nat list
     \<Rightarrow> Rewriter \<Rightarrow> error + Rewriter" where
  "rw_xdecref bumpUseEarlyIfPossible bumpUseLateIfNecessary var vars_to_bump st =
     (if \<not> nullable (vars st ! var) then Inl AssertFail
      else rw_call_no_result bumpUseEarlyIfPossible bumpUseLateIfNecessary True False
             (xdecref_addr (layout st)) [var] [] vars_to_bump st)"

subsection \<open>Releasing a variable\<close>

text \<open>The loop of \<^verbatim>\<open>_release\<close> over the scratch slots of an allocation.\<close>

fun release_scratch :: "RewriterVar \<Rightarrow> nat list \<Rightarrow> Rewriter \<Rightarrow> error + Rewriter" where
  "release_scratch var [] st = Inr st"
| "release_scratch var (i # is) st =
     (case getScratchLocation var (int i * 8) of
        Inl e \<Rightarrow> Inl e
      | Inr l \<Rightarrow>
          if vars_by_location st l \<noteq> Some LOCATION_PLACEHOLDER then Inl AssertFail
          else release_scratch var is (st\<lparr>vars_by_location := (vars_by_location st)(l := None)\<rparr>))"

text \<open>\<^verbatim>\<open>RewriterVar::_release\<close>.  It calls \<^verbatim>\<open>_decref\<close> and \<^verbatim>\<open>_xdecref\<close> with
  the default, empty \<open>vars_to_bump\<close>, so that neither of the two bump functions is
  called.\<close>

definition rw_release :: "nat \<Rightarrow> Rewriter \<Rightarrow> error + Rewriter" where
  "rw_release v st =
     rbind (if reftype (vars st ! v) = OWNED \<and> \<not> refHandedOff (vars st ! v) then
              (if nullable (vars st ! v)
               then rw_xdecref (\<lambda>u. Inr) (\<lambda>u. Inr) v [] st
               else rw_decref (\<lambda>u. Inr) (\<lambda>u. Inr) v [] st)
            else Inr st) (\<lambda>st1.
       let st2 = st1\<lparr>vars_by_location :=
                       (\<lambda>l. if l \<in> set (locations (vars st1 ! v)) then None
                            else vars_by_location st1 l)\<rparr>
       in rbind (if isScratchAllocation (vars st2 ! v) then
                   rbind (release_scratch (vars st2 ! v)
                            [0 ..< nat (snd (scratch_allocation (vars st2 ! v)))] st2) (\<lambda>st3.
                     Inr (st3\<lparr>vars := (vars st3)[v := (vars st3 ! v)\<lparr>scratch_allocation := (0, 0)\<rparr>]\<rparr>))
                 else Inr st2) (\<lambda>st4.
            Inr (st4\<lparr>vars := (vars st4)[v := (vars st4 ! v)\<lparr>locations := []\<rparr>]\<rparr>)))"

text \<open>\<^verbatim>\<open>RewriterVar::bumpUse\<close>.\<close>

definition bumpUse :: "nat \<Rightarrow> Rewriter \<Rightarrow> error + Rewriter" where
  "bumpUse v st =
     (if \<not> phase_emitting st then Inl AssertFail
      else
        let st1 = st\<lparr>vars := (vars st)[v := (vars st ! v)\<lparr>next_use := next_use (vars st ! v) + 1\<rparr>]\<rparr>
        in if \<not> next_use (vars st1 ! v) \<le> length (uses (vars st1 ! v)) then Inl AssertFail
           else if next_use (vars st1 ! v) = length (uses (vars st1 ! v)) then
             (if \<not> done_guarding st1 \<and> is_arg (vars st1 ! v) then Inr st1
              else rw_release v st1)
           else Inr st1)"

subsection \<open>Calls that may throw\<close>

text \<open>\<^verbatim>\<open>RewriterVar::releaseIfNoUses\<close>.\<close>

definition releaseIfNoUses :: "nat \<Rightarrow> Rewriter \<Rightarrow> error + Rewriter" where
  "releaseIfNoUses v st =
     (if \<not> phase_emitting st then Inl AssertFail
      else if uses (vars st ! v) = [] then
        (if next_use (vars st ! v) \<noteq> 0 then Inl AssertFail else rw_release v st)
      else Inr st)"

text \<open>\<^verbatim>\<open>RewriterVar::initializeInReg(l)\<close>.  Reading \<open>is_arg\<close> through the sentinel
  ends the model with \<open>Inl AssertFail\<close>.\<close>

definition initializeInReg :: "nat \<Rightarrow> location \<Rightarrow> Rewriter \<Rightarrow> error + (register \<times> Rewriter)" where
  "initializeInReg v l st =
     (if \<not> phase_emitting st then Inl AssertFail
      else
        rbind (case l of
                 Register r \<Rightarrow>
                   if \<not> done_guarding st then
                     (case vars_by_location st l of
                        None \<Rightarrow> Inr l
                      | Some LOCATION_PLACEHOLDER \<Rightarrow> Inl AssertFail
                      | Some (Var u) \<Rightarrow> Inr (if is_arg (vars st ! u) then AnyReg else l))
                   else Inr l
               | _ \<Rightarrow> Inr l) (\<lambda>l1.
        rbind (allocReg l1 AnyReg (allocatable_regs st) st) (\<lambda>(reg, st1).
          if \<not> (vars_by_location st1 (Register reg) = None \<or> failed st1) then Inl AssertFail
          else if isInLocation (vars st1 ! v) (Register reg) then Inl AssertFail
          else Inr (reg,
                    st1\<lparr>vars_by_location := (vars_by_location st1)(Register reg \<mapsto> Var v),
                        vars := (vars st1)[v := (vars st1 ! v)
                                  \<lparr>locations := locations (vars st1 ! v) @ [Register reg]\<rparr>]\<rparr>))))"

text \<open>\<^verbatim>\<open>Rewriter::_call\<close>, in three parts.  \<open>rw_call_site\<close> is the function up to
  and including \<^verbatim>\<open>_callOptimalEncoding\<close>; the flag of its result says that the
  function returned right after \<^verbatim>\<open>allocReg\<close> because the rewrite has failed.
  \<open>rw_call_finish\<close> is the function after the registration of the decref information.
  \<open>result\<close> is \<open>None\<close> for a null pointer.\<close>

definition rw_call_site ::
  "(nat \<Rightarrow> Rewriter \<Rightarrow> error + Rewriter) \<Rightarrow> bool \<Rightarrow> 64 word \<Rightarrow> nat list \<Rightarrow> nat list \<Rightarrow> nat list
     \<Rightarrow> Rewriter \<Rightarrow> error + (bool \<times> Rewriter)" where
  "rw_call_site bumpUseEarlyIfPossible has_side_effects func_addr call_args args_xmm
       vars_to_bump st =
     rbind (allocReg (Register R11) AnyReg (allocatable_regs st) st) (\<lambda>(r, st1).
       if failed st1 then Inr (True, st1)
       else
         rbind (rw_setupCall bumpUseEarlyIfPossible has_side_effects call_args args_xmm
                  (Register R11) vars_to_bump st1) (\<lambda>st2.
         rbind (rw_callOptimalEncoding r func_addr st2) (\<lambda>st3. Inr (False, st3))))"

definition rw_call_finish ::
  "(nat \<Rightarrow> Rewriter \<Rightarrow> error + Rewriter) \<Rightarrow> nat option \<Rightarrow> nat list \<Rightarrow> Rewriter
     \<Rightarrow> error + Rewriter" where
  "rw_call_finish bumpUseLateIfNecessary result vars_to_bump st =
     rbind (if \<not> failed st then
              (if vars_by_location st (Register RAX) \<noteq> None then Inl AssertFail
               else case result of
                      None \<Rightarrow> Inr st
                    | Some res \<Rightarrow>
                        rbind (initializeInReg res (Register RAX) st) (\<lambda>(reg, st1). Inr st1))
            else Inr st) (\<lambda>st1.
     rbind (case result of None \<Rightarrow> Inr st1 | Some res \<Rightarrow> releaseIfNoUses res st1) (\<lambda>st2.
       bump_all bumpUseLateIfNecessary vars_to_bump st2))"

definition rw_call ::
  "(nat \<Rightarrow> Rewriter \<Rightarrow> error + Rewriter) \<Rightarrow> (nat \<Rightarrow> Rewriter \<Rightarrow> error + Rewriter) \<Rightarrow> nat option
     \<Rightarrow> bool \<Rightarrow> bool \<Rightarrow> 64 word \<Rightarrow> nat list \<Rightarrow> nat list \<Rightarrow> nat list \<Rightarrow> Rewriter
     \<Rightarrow> error + Rewriter" where
  "rw_call bumpUseEarlyIfPossible bumpUseLateIfNecessary result has_side_effects can_throw
       func_addr call_args args_xmm vars_to_bump st =
     rbind (rw_call_site bumpUseEarlyIfPossible has_side_effects func_addr call_args args_xmm
              vars_to_bump st) (\<lambda>(returned, st3).
       if returned then Inr st3
       else
         rbind (if can_throw then registerDecrefInfoHere st3 else Inr st3)
               (rw_call_finish bumpUseLateIfNecessary result vars_to_bump))"

text \<open>\<^verbatim>\<open>Rewriter::_checkAndThrowCAPIException\<close>, in two parts: up to and including
  \<^verbatim>\<open>_callOptimalEncoding\<close>, and the whole.  \<open>throw_addr\<close> is the address of
  \<^verbatim>\<open>throwCAPIException\<close>.  The call \<^verbatim>\<open>_setupCall(false, {})\<close> leaves three
  arguments to the defaults declared in \<^verbatim>\<open>rewriter.h\<close>: the two lists are taken to
  be empty, and \<open>preserve\<close> is a parameter.\<close>

definition rw_capi_site ::
  "(nat \<Rightarrow> Rewriter \<Rightarrow> error + Rewriter) \<Rightarrow> location \<Rightarrow> 64 word \<Rightarrow> nat \<Rightarrow> int \<Rightarrow> MovType
     \<Rightarrow> Rewriter \<Rightarrow> error + Rewriter" where
  "rw_capi_site bumpUseEarlyIfPossible preserve throw_addr r exc_val type st =
     rbind (getInReg r AnyReg False AnyReg st) (\<lambda>(var_reg, st1).
     rbind (if exc_val = 0 then
              (if type \<noteq> MovQ then Inl ReleaseAssertFail
               else Inr (emit (TestRR var_reg var_reg) st1))
            else Inr (emit (CmpRI var_reg exc_val type) st1)) (\<lambda>st2.
     rbind (rw_setupCall bumpUseEarlyIfPossible False [] [] preserve [] st2) (\<lambda>st3.
       rw_callOptimalEncoding R11 throw_addr (emit (ForwardJump COND_NOT_ZERO) st3))))"

definition rw_checkAndThrowCAPIException ::
  "(nat \<Rightarrow> Rewriter \<Rightarrow> error + Rewriter) \<Rightarrow> location \<Rightarrow> 64 word \<Rightarrow> nat \<Rightarrow> int \<Rightarrow> MovType
     \<Rightarrow> Rewriter \<Rightarrow> error + Rewriter" where
  "rw_checkAndThrowCAPIException bumpUseEarlyIfPossible preserve throw_addr r exc_val type st =
     rbind (rw_capi_site bumpUseEarlyIfPossible preserve throw_addr r exc_val type st) (\<lambda>st4.
     rbind (registerDecrefInfoHere st4) (bumpUse r))"

subsection \<open>The emit loop of commit\<close>

text \<open>The closure \<^verbatim>\<open>on_done_guarding\<close> of \<^verbatim>\<open>commit()\<close>.\<close>

fun release_done_args :: "nat list \<Rightarrow> Rewriter \<Rightarrow> error + Rewriter" where
  "release_done_args [] st = Inr st"
| "release_done_args (arg # rest) st =
     (if next_use (vars st ! arg) = length (uses (vars st ! arg)) then
        (case rw_release arg st of
           Inl e \<Rightarrow> Inl e
         | Inr st' \<Rightarrow> release_done_args rest st')
      else release_done_args rest st)"

definition on_done_guarding :: "Rewriter \<Rightarrow> error + Rewriter" where
  "on_done_guarding st = release_done_args (args st) (st\<lparr>done_guarding := True\<rparr>)"

text \<open>\<^verbatim>\<open>Rewriter::abort\<close>: the slot's own \<^verbatim>\<open>abort()\<close> discards the reservation;
  nothing is installed.\<close>

definition abort :: "Rewriter \<Rightarrow> error + Rewriter" where
  "abort st = (if finished st then Inl AssertFail else Inr (st\<lparr>finished := True\<rparr>))"

text \<open>How the emit loop ends: \<open>Aborted\<close> when \<^verbatim>\<open>commit()\<close> returns from inside the
  loop after \<^verbatim>\<open>abort()\<close>, before anything is handed to the slot; \<open>Emitted\<close> when
  the loop has run through all actions.\<close>

datatype loop_result = Aborted Rewriter | Emitted Rewriter

text \<open>The loop \<^verbatim>\<open>for (int i = 0; i < actions.size(); i++)\<close> of \<^verbatim>\<open>commit()\<close>, from
  index \<open>i\<close> on, over the remaining actions.  The closure of an action is run by
  \<open>exec\<close>, which stands for the emitting functions the closures call.\<close>

fun commit_loop ::
  "(emit_op \<Rightarrow> Rewriter \<Rightarrow> error + Rewriter) \<Rightarrow> nat \<Rightarrow> RewriterAction list \<Rightarrow> Rewriter
     \<Rightarrow> error + loop_result" where
  "commit_loop exec i [] st = Inr (Emitted st)"
| "commit_loop exec i (a # rest) st =
     (case commit_increfs i (consumed_refs a) st of
        Inl e \<Rightarrow> Inl e
      | Inr st1 \<Rightarrow>
          (case exec (action a) (st1\<lparr>current_action_idx := int i\<rparr>) of
             Inl e \<Rightarrow> Inl e
           | Inr st2 \<Rightarrow>
               if failed st2 then
                 (case abort st2 of Inl e \<Rightarrow> Inl e | Inr st3 \<Rightarrow> Inr (Aborted st3))
               else
                 (case (if int i = last_guard_action st2 then on_done_guarding st2 else Inr st2) of
                    Inl e \<Rightarrow> Inl e
                  | Inr st3 \<Rightarrow> commit_loop exec (Suc i) rest st3)))"


text \<open>\<^verbatim>\<open>commit()\<close> from its start to the end of the emit loop.  Three checks read
  state of the collaborators and are parameters: \<open>gc_sole_ref\<close> (some object of
  \<^verbatim>\<open>gc_references\<close> has the reference count 1), \<open>asm_failed\<close>
  (\<^verbatim>\<open>assembler->hasFailed()\<close>) and \<open>slot_picked\<close> (\<^verbatim>\<open>prepareEntry()\<close> returned
  a slot).\<close>

definition add_final_uses :: "Rewriter \<Rightarrow> Rewriter" where
  "add_final_uses st =
     (let n = length (actions st);
          vl1 = foldl (add_use n) (vars st) (live_outs st);
          vl2 = map (\<lambda>var. if is_constant var then var\<lparr>uses := uses var @ [n]\<rparr> else var) vl1
      in st\<lparr>vars := vl2\<rparr>)"

definition abort_result :: "Rewriter \<Rightarrow> error + loop_result" where
  "abort_result st = (case abort st of Inl e \<Rightarrow> Inl e | Inr st' \<Rightarrow> Inr (Aborted st'))"

definition commit_emit ::
  "(emit_op \<Rightarrow> Rewriter \<Rightarrow> error + Rewriter) \<Rightarrow> bool \<Rightarrow> bool \<Rightarrow> bool \<Rightarrow> Rewriter
     \<Rightarrow> error + loop_result" where
  "commit_emit exec gc_sole_ref asm_failed slot_picked st =
     (if owned_attrs st \<noteq> [] then Inl AssertFail
      else if finished st then Inl AssertFail
      else
        let st1 = st\<lparr>phase_emitting := True\<rparr> in
        if failed st1 then abort_result st1
        else if gc_sole_ref then abort_result st1
        else if asm_failed then abort_result st1
        else
          let st2 = add_final_uses st1 in
          rbind (if last_guard_action st2 = - 1 then on_done_guarding st2 else Inr st2) (\<lambda>st3.
            if \<not> slot_picked then abort_result st3
            else commit_loop exec 0 (actions st3) st3))"

subsection \<open>The constructor\<close>

text \<open>\<^verbatim>\<open>Rewriter::Rewriter(rewrite, num_args, live_outs, needs_invalidation_support)\<close>.
  The live-outs are given by the locations of their DWARF registers.\<close>

fun init_args :: "nat \<Rightarrow> nat \<Rightarrow> Rewriter \<Rightarrow> error + Rewriter" where
  "init_args i 0 st = Inr st"
| "init_args i (Suc n) st =
     (case createNewVar st of
        Inl e \<Rightarrow> Inl e
      | Inr (var, st1) \<Rightarrow>
          (case addLocationToVar var (forArg i) st1 of
             Inl e \<Rightarrow> Inl e
           | Inr st2 \<Rightarrow>
               init_args (Suc i) n
                 (st2\<lparr>vars := (vars st2)[var := (vars st2 ! var)\<lparr>is_arg := True,
                                                                 arg_loc := forArg i\<rparr>],
                      args := args st2 @ [var]\<rparr>)))"

fun init_live_outs :: "location list \<Rightarrow> Rewriter \<Rightarrow> error + Rewriter" where
  "init_live_outs [] st = Inr st"
| "init_live_outs (l # ls) st =
     (if l = return_location st then Inl AssertFail
      else
        case (case vars_by_location st l of
                Some (Var v) \<Rightarrow> Inr (v, st)
              | Some LOCATION_PLACEHOLDER \<Rightarrow> Inl AssertFail
              | None \<Rightarrow>
                  rbind (createNewVar st) (\<lambda>(var, st1).
                    Inr (var, st1\<lparr>vars := (vars st1)[var := (vars st1 ! var)\<lparr>locations :=
                                             locations (vars st1 ! var) @ [l]\<rparr>],
                                  vars_by_location := (vars_by_location st1)(l \<mapsto> Var var)\<rparr>))) of
          Inl e \<Rightarrow> Inl e
        | Inr (var, st2) \<Rightarrow>
            if l \<in> set (live_out_regs st2) then Inl AssertFail
            else init_live_outs ls (st2\<lparr>live_outs := live_outs st2 @ [var],
                                         live_out_regs := live_out_regs st2 @ [l]\<rparr>))"

text \<open>The member initialisers of the constructor.\<close>

definition initial_rewriter :: "ICSlotRewrite \<Rightarrow> runtime_layout \<Rightarrow> bool \<Rightarrow> Rewriter" where
  "initial_rewriter rw lay needs_invalidation =
     \<lparr>rewrite = rw, layout = lay, vars = [], vars_by_location = (\<lambda>l. None),
      loader_consts = [], actions = [], args = [], live_outs = [], live_out_regs = [],
      return_location = returnRegister rw, allocatable_regs = getAllocatableRegs rw,
      failed = False, finished = False, phase_emitting = False,
      needs_invalidation_support = needs_invalidation, added_changing_action = False,
      marked_inside_ic = False, last_guard_action = - 1, done_guarding = False,
      current_action_idx = - 1, next_slot_jmps = [], decref_infos = [],
      owned_attrs = [], emitted = [], bytesWritten = 0\<rparr>"

definition Rewriter_new ::
  "ICSlotRewrite \<Rightarrow> runtime_layout \<Rightarrow> nat \<Rightarrow> location list \<Rightarrow> bool \<Rightarrow> error + Rewriter" where
  "Rewriter_new rw lay num_args live_out_locs needs_invalidation =
     rbind (init_args 0 num_args (initial_rewriter rw lay needs_invalidation))
       (init_live_outs live_out_locs)"

text \<open>\<^verbatim>\<open>RewriterVar::setType\<close>, \<^verbatim>\<open>RewriterVar::refConsumed\<close> (with the default
  argument: the action is the last one enqueued) and \<^verbatim>\<open>RewriterVar::setNullable\<close>,
  which is defined in \<^verbatim>\<open>rewriter.h\<close> and stores its argument in \<open>nullable\<close>.\<close>

definition setType :: "nat \<Rightarrow> RefType \<Rightarrow> Rewriter \<Rightarrow> error + Rewriter" where
  "setType v type st =
     (if type = UNKNOWN then Inl AssertFail
      else if \<not> (reftype (vars st ! v) = UNKNOWN \<or> reftype (vars st ! v) = type) then Inl AssertFail
      else if reftype (vars st ! v) = UNKNOWN
      then Inr (st\<lparr>vars := (vars st)[v := (vars st ! v)\<lparr>reftype := type\<rparr>]\<rparr>)
      else Inr st)"

definition refConsumed :: "nat \<Rightarrow> Rewriter \<Rightarrow> error + Rewriter" where
  "refConsumed v st =
     (let var = vars st ! v in
      if \<not> (reftype var \<noteq> UNKNOWN \<or> (is_constant var \<and> constant_value var = 0))
      then Inl AssertFail
      else if actions st = [] then Inl AssertFail
      else
        let var' = var\<lparr>num_refs_consumed := num_refs_consumed var + 1,
                       last_refconsumed_numuses := length (uses var)\<rparr>;
            a = last (actions st)
        in Inr (st\<lparr>vars := (vars st)[v := var'],
                   actions := butlast (actions st) @ [a\<lparr>consumed_refs := v # consumed_refs a\<rparr>]\<rparr>))"

section \<open>Notions used in the statements\<close>

text \<open>A register holds a constant when \<open>vars_by_location\<close> maps it to a constant
  variable of that value.\<close>

definition holds_constant :: "Rewriter \<Rightarrow> register \<Rightarrow> 64 word \<Rightarrow> bool" where
  "holds_constant st r c =
     (case vars_by_location st (Register r) of
        Some (Var v) \<Rightarrow> is_constant (vars st ! v) \<and> constant_value (vars st ! v) = c
      | _ \<Rightarrow> False)"

text \<open>The bookkeeping of the registers and of the constant table is consistent (the first
  invariant of section 3 of the specification, for the registers): a register that
  \<open>vars_by_location\<close> maps to a variable is among the locations of that variable, no
  register is mapped to the sentinel, every constant variable in a register is in the
  table of the constant loader, and every entry of the table is a constant variable of the
  entry's value whose locations are mapped back to it.\<close>

definition registers_consistent :: "Rewriter \<Rightarrow> bool" where
  "registers_consistent st =
     (list_all (\<lambda>r. case vars_by_location st (Register r) of
                       None \<Rightarrow> True
                     | Some LOCATION_PLACEHOLDER \<Rightarrow> False
                     | Some (Var v) \<Rightarrow>
                         Register r \<in> set (locations (vars st ! v))
                         \<and> (\<not> is_constant (vars st ! v)
                            \<or> (constant_value (vars st ! v), v) \<in> set (loader_consts st)))
               all_registers
      \<and> list_all (\<lambda>p. is_constant (vars st ! snd p) \<and> constant_value (vars st ! snd p) = fst p
                       \<and> list_all (\<lambda>l. vars_by_location st l = Some (Var (snd p)))
                                   (locations (vars st ! snd p)))
                  (loader_consts st))"

text \<open>The first test of \<^verbatim>\<open>spillRegister\<close>: the value of the variable is not lost
  when the register is dropped.\<close>

definition spill_keeps_value :: "RewriterVar \<Rightarrow> bool" where
  "spill_keeps_value var =
     (length (locations var) > 1 \<or> is_constant var \<or> isScratchAllocation var)"

text \<open>A free allocatable callee-save register other than \<open>preserve\<close>, and a free
  scratch slot.\<close>

definition free_callee_save :: "Rewriter \<Rightarrow> location \<Rightarrow> register \<Rightarrow> bool" where
  "free_callee_save st preserve r =
     (r \<in> set (allocatable_regs st) \<and> isCalleeSave r \<and> vars_by_location st (Register r) = None
      \<and> Register r \<noteq> preserve)"

definition free_scratch_slot :: "Rewriter \<Rightarrow> int \<Rightarrow> bool" where
  "free_scratch_slot st off =
     (Scratch off \<in> set (scratch_slots (getScratchSize (rewrite st)))
      \<and> vars_by_location st (Scratch off) = None)"

text \<open>For \<^verbatim>\<open>allocReg\<close>: a free register of the valid set other than \<open>otherThan\<close>;
  a register that holds an entry argument at its argument location; a register that may
  be spilled (it is not \<open>otherThan\<close>, it is occupied by a variable that has a next use,
  and it is not a pinned argument while guarding is not done); and the action index of the
  next use of the occupant.\<close>

definition free_reg :: "Rewriter \<Rightarrow> location \<Rightarrow> register list \<Rightarrow> register \<Rightarrow> bool" where
  "free_reg st otherThan valid_registers r =
     (r \<in> set valid_registers \<and> Register r \<noteq> otherThan \<and> vars_by_location st (Register r) = None)"

definition pinned_arg :: "Rewriter \<Rightarrow> register \<Rightarrow> bool" where
  "pinned_arg st r =
     (case vars_by_location st (Register r) of
        Some (Var v) \<Rightarrow> is_arg (vars st ! v) \<and> arg_loc (vars st ! v) = Register r
      | _ \<Rightarrow> False)"

definition spill_candidate :: "Rewriter \<Rightarrow> location \<Rightarrow> register \<Rightarrow> bool" where
  "spill_candidate st otherThan r =
     (Register r \<noteq> otherThan
      \<and> (case vars_by_location st (Register r) of
            Some (Var v) \<Rightarrow>
              \<not> (\<not> done_guarding st \<and> is_arg (vars st ! v) \<and> arg_loc (vars st ! v) = Register r)
              \<and> next_use (vars st ! v) < length (uses (vars st ! v))
          | _ \<Rightarrow> False))"

definition next_use_at :: "Rewriter \<Rightarrow> register \<Rightarrow> nat" where
  "next_use_at st r =
     (case vars_by_location st (Register r) of
        Some (Var v) \<Rightarrow> uses (vars st ! v) ! next_use (vars st ! v)
      | _ \<Rightarrow> 0)"

text \<open>The loop of \<^verbatim>\<open>allocReg\<close> can read the entry of a register: no sentinel, and
  \<open>next_use\<close> within \<open>uses\<close>.\<close>

definition scannable :: "Rewriter \<Rightarrow> register \<Rightarrow> bool" where
  "scannable st r =
     (case vars_by_location st (Register r) of
        None \<Rightarrow> True
      | Some LOCATION_PLACEHOLDER \<Rightarrow> False
      | Some (Var v) \<Rightarrow> next_use (vars st ! v) \<le> length (uses (vars st ! v)))"

text \<open>The occupant of a register is a variable of the rewriter that lists the register
  among its locations.\<close>

definition occupant_listed :: "Rewriter \<Rightarrow> register \<Rightarrow> bool" where
  "occupant_listed st r =
     (case vars_by_location st (Register r) of
        Some (Var v) \<Rightarrow> v < length (vars st) \<and> Register r \<in> set (locations (vars st ! v))
      | _ \<Rightarrow> True)"

text \<open>An incref instruction: \<^verbatim>\<open>incq\<close> on a memory operand or on an absolute
  address.\<close>

definition is_incq :: "instr \<Rightarrow> bool" where
  "is_incq ins = (case ins of IncqMem mem \<Rightarrow> True | IncqImm addr \<Rightarrow> True | _ \<Rightarrow> False)"

text \<open>The fields of a variable that bringing it into a register never changes.\<close>

definition var_static ::
  "RewriterVar \<Rightarrow> bool \<times> 64 word \<times> RefType \<times> bool \<times> nat list \<times> nat \<times> nat" where
  "var_static var =
     (is_constant var, constant_value var, reftype var, nullable var, uses var,
      num_refs_consumed var, last_refconsumed_numuses var)"

text \<open>A step of the register allocator from \<open>st\<close> to \<open>st'\<close>: code is only appended,
  none of it an incref, the variables keep their static fields, and \<open>failed\<close> is not
  cleared.\<close>

definition alloc_step :: "Rewriter \<Rightarrow> Rewriter \<Rightarrow> bool" where
  "alloc_step st st' =
     ((\<exists>code. emitted st' = emitted st @ code \<and> filter is_incq code = [])
      \<and> map var_static (vars st') = map var_static (vars st)
      \<and> done_guarding st' = done_guarding st
      \<and> phase_emitting st' = phase_emitting st
      \<and> layout st' = layout st \<and> rewrite st' = rewrite st
      \<and> allocatable_regs st' = allocatable_regs st
      \<and> (failed st \<longrightarrow> failed st'))"

text \<open>The action with index \<open>i\<close> is the hand-off point of a variable, in the words of
  the claim; and an incref is due for a consumed variable before action \<open>i\<close>: the action
  is not its hand-off point and the variable is not the constant 0.\<close>

definition handoff_at :: "nat \<Rightarrow> RewriterVar \<Rightarrow> bool" where
  "handoff_at i var =
     (reftype var = OWNED \<and> num_refs_consumed var > 0
      \<and> last_refconsumed_numuses var = length (uses var)
      \<and> last_refconsumed_numuses var > 0
      \<and> uses var ! (last_refconsumed_numuses var - 1) = i)"

definition incref_due :: "nat \<Rightarrow> RewriterVar \<Rightarrow> bool" where
  "incref_due i var = (\<not> handoff_at i var \<and> \<not> (is_constant var \<and> constant_value var = 0))"

text \<open>For the decref information.  A location that \<^verbatim>\<open>getDecrefLocations\<close> can record:
  a scratch slot or a register that a call does not clobber; how it is recorded; and the
  location types its loop handles at all.  A variable is tracked at the current action
  when it has a location, its reference type is \<open>OWNED\<close> and \<^verbatim>\<open>needsDecref\<close> holds:
  no reference is consumed, or the action that hands the reference off is not the
  current one.\<close>

definition decref_eligible :: "location \<Rightarrow> bool" where
  "decref_eligible l =
     (case l of Scratch off \<Rightarrow> True | Register r \<Rightarrow> isCalleeSave r | _ \<Rightarrow> False)"

definition decref_encode :: "Rewriter \<Rightarrow> location \<Rightarrow> location" where
  "decref_encode st l =
     (case l of Scratch off \<Rightarrow> Stack (getScratchRspOffset (rewrite st) + off) | _ \<Rightarrow> l)"

definition decref_handled :: "location \<Rightarrow> bool" where
  "decref_handled l = (case l of Scratch off \<Rightarrow> True | Register r \<Rightarrow> True | _ \<Rightarrow> False)"

definition tracked :: "Rewriter \<Rightarrow> RewriterVar \<Rightarrow> bool" where
  "tracked st var =
     (locations var \<noteq> [] \<and> reftype var = OWNED
      \<and> (num_refs_consumed var = 0
         \<or> int (uses var ! (last_refconsumed_numuses var - 1)) \<noteq> current_action_idx st))"

text \<open>The entries that the variables contribute, and whether some tracked variable has no
  location that can be recorded.\<close>

definition decref_entries :: "Rewriter \<Rightarrow> location list" where
  "decref_entries st =
     concat (map (\<lambda>var. if tracked st var
                         then (case List.find decref_eligible (locations var) of
                                 Some l \<Rightarrow> [decref_encode st l]
                               | None \<Rightarrow> [])
                         else [])
                 (vars st))"

definition unplaceable :: "Rewriter \<Rightarrow> bool" where
  "unplaceable st =
     list_ex (\<lambda>var. tracked st var \<and> List.find decref_eligible (locations var) = None) (vars st)"

text \<open>What \<^verbatim>\<open>getDecrefLocations\<close> needs in order to return: for every owned variable
  with a location and a consumed reference, \<open>last_refconsumed_numuses\<close> points into
  \<open>uses\<close>; and the locations of a tracked variable up to the first one that can be
  recorded are scratch slots or registers (the loop release-asserts on any other).\<close>

definition decref_readable :: "Rewriter \<Rightarrow> bool" where
  "decref_readable st =
     list_all (\<lambda>var.
        (locations var = [] \<or> reftype var \<noteq> OWNED \<or> num_refs_consumed var = 0
         \<or> (0 < last_refconsumed_numuses var
            \<and> last_refconsumed_numuses var \<le> length (uses var)))
        \<and> (\<not> tracked st var
           \<or> list_all decref_handled (takeWhile (\<lambda>l. \<not> decref_eligible l) (locations var))))
       (vars st)"

text \<open>The two parts of it.  \<^verbatim>\<open>needsDecref\<close> can read \<open>uses\<close> for every
  variable with a location; and some tracked variable has, before any location that can
  be recorded, a location that is neither a scratch slot nor a register.\<close>

definition refs_readable :: "Rewriter \<Rightarrow> bool" where
  "refs_readable st =
     list_all (\<lambda>var. locations var = [] \<or> reftype var \<noteq> OWNED \<or> num_refs_consumed var = 0
                       \<or> (0 < last_refconsumed_numuses var
                           \<and> last_refconsumed_numuses var \<le> length (uses var)))
              (vars st)"

definition unhandled :: "Rewriter \<Rightarrow> bool" where
  "unhandled st =
     list_ex (\<lambda>var. tracked st var
                \<and> \<not> list_all decref_handled (takeWhile (\<lambda>l. \<not> decref_eligible l) (locations var)))
             (vars st)"

text \<open>The rewriter after the entry of a call site has been recorded: the address is that
  of the next instruction, the return address of the call just emitted.\<close>

definition decref_registered :: "Rewriter \<Rightarrow> location list \<Rightarrow> Rewriter" where
  "decref_registered st attrs =
     st\<lparr>failed := failed st \<or> unplaceable st,
        decref_infos := decref_infos st @
          [(getSlotStart (rewrite st) + of_nat (bytesWritten st), decref_entries st @ attrs)]\<rparr>"

text \<open>A function that stands for \<^verbatim>\<open>bumpUseLateIfNecessary\<close> never clears
  \<open>failed\<close>; nothing in the rewriter does.\<close>

definition keeps_failed :: "(nat \<Rightarrow> Rewriter \<Rightarrow> error + Rewriter) \<Rightarrow> bool" where
  "keeps_failed f = (\<forall>v s s'. f v s = Inr s' \<and> failed s \<longrightarrow> failed s')"

text \<open>The emit loop of \<^verbatim>\<open>commit()\<close>, at the action \<open>a\<close> with index \<open>i\<close> and
  started on \<open>c0\<close>, runs the closure of the action on \<open>s0\<close>.\<close>

definition action_state :: "nat \<Rightarrow> RewriterAction \<Rightarrow> Rewriter \<Rightarrow> Rewriter \<Rightarrow> bool" where
  "action_state i a c0 s0 =
     (case commit_increfs i (consumed_refs a) c0 of
        Inl e \<Rightarrow> False
      | Inr c1 \<Rightarrow> s0 = c1\<lparr>current_action_idx := int i\<rparr>)"

definition is_call :: "instr \<Rightarrow> bool" where
  "is_call ins = (case ins of CallqReg r \<Rightarrow> True | CallImm off \<Rightarrow> True | _ \<Rightarrow> False)"

text \<open>For the attribute guards.  An enqueued action is the guard of \<open>v\<close> for the triple
  (offset, val, negate); the number of such actions in the queue; and the bookkeeping of
  the guards: every entry of the constant table is a variable of the entry's value, every
  enqueued attribute guard has its triple in \<open>attr_guards\<close> of its variable, and no
  triple of a variable has more than one guard in the queue.\<close>

definition is_attr_guard_of ::
  "Rewriter \<Rightarrow> nat \<Rightarrow> int \<Rightarrow> 64 word \<Rightarrow> bool \<Rightarrow> RewriterAction \<Rightarrow> bool" where
  "is_attr_guard_of st v offset val negate a =
     (case action a of
        OpAddAttrGuard v' offset' val_var negate' \<Rightarrow>
          v' = v \<and> offset' = offset \<and> negate' = negate
          \<and> constant_value (vars st ! val_var) = val
      | _ \<Rightarrow> False)"

definition guard_count :: "Rewriter \<Rightarrow> nat \<Rightarrow> int \<Rightarrow> 64 word \<Rightarrow> bool \<Rightarrow> nat" where
  "guard_count st v offset val negate =
     length (filter (is_attr_guard_of st v offset val negate) (actions st))"

definition guard_recorded :: "Rewriter \<Rightarrow> RewriterAction \<Rightarrow> bool" where
  "guard_recorded st a =
     (case action a of
        OpAddAttrGuard v offset val_var negate \<Rightarrow>
          v < length (vars st) \<and> val_var < length (vars st)
          \<and> (offset, constant_value (vars st ! val_var), negate) \<in> attr_guards (vars st ! v)
      | _ \<Rightarrow> True)"

definition guards_recorded :: "Rewriter \<Rightarrow> bool" where
  "guards_recorded st =
     (list_all (\<lambda>p. snd p < length (vars st) \<and> constant_value (vars st ! snd p) = fst p)
               (loader_consts st)
      \<and> list_all (guard_recorded st) (actions st)
      \<and> (\<forall>v offset val negate. guard_count st v offset val negate \<le> 1))"



subsection \<open>Sample values\<close>

definition example_slot :: ICSlotRewrite where
  "example_slot =
     \<lparr>getSlotSize = 512, getSlotStart = 0x7F0000001000, getScratchSize = 16,
      getScratchRspOffset = 32, returnRegister = Register RAX,
      getAllocatableRegs = std_allocatable_regs, num_inside_addr = 0x7F0000002000,
      instr_len = (\<lambda>pos i. 4)\<rparr>"

definition example_layout :: runtime_layout where
  "example_layout =
     \<lparr>ob_refcnt_offset = 0, ob_cls_offset = 8, tp_dealloc_offset = 48, xdecref_addr = 0x401000,
      IC_INVALDITION_HEADER_SIZE = 6\<rparr>"

text \<open>A rewriter in the emit phase, after guarding, with no variable.\<close>

definition emitting_rewriter :: Rewriter where
  "emitting_rewriter =
     (initial_rewriter example_slot example_layout False)
       \<lparr>phase_emitting := True, done_guarding := True\<rparr>"

text \<open>A constant variable of value \<open>c\<close> with the given locations and uses.\<close>

definition const_var :: "64 word \<Rightarrow> location list \<Rightarrow> nat list \<Rightarrow> RewriterVar" where
  "const_var c ls us = new_var\<lparr>is_constant := True, constant_value := c, locations := ls, uses := us\<rparr>"

text \<open>The constant \<open>0x100000000\<close> is loaded and held in RAX.\<close>

definition rewriter_with_const :: Rewriter where
  "rewriter_with_const =
     emitting_rewriter
       \<lparr>vars := [const_var 0x100000000 [Register RAX] [0]],
        vars_by_location := (\<lambda>l. None)(Register RAX \<mapsto> Var 0),
        loader_consts := [(0x100000000, 0)]\<rparr>"

text \<open>A variable with the given locations, uses and position in its uses.\<close>

definition plain_var :: "location list \<Rightarrow> nat list \<Rightarrow> nat \<Rightarrow> RewriterVar" where
  "plain_var ls us n = new_var\<lparr>locations := ls, uses := us, next_use := n\<rparr>"

text \<open>One variable lives in RAX only; R12 is allocatable and free; the two scratch slots
  are free.\<close>

definition spill_rewriter :: Rewriter where
  "spill_rewriter =
     emitting_rewriter
       \<lparr>vars := [plain_var [Register RAX] [3] 0],
        vars_by_location := (\<lambda>l. None)(Register RAX \<mapsto> Var 0),
        allocatable_regs := std_allocatable_regs @ [R12]\<rparr>"

text \<open>One variable lives in RAX only; the standard registers are allocatable; both scratch
  slots belong to an allocation.\<close>

definition exhausted_rewriter :: Rewriter where
  "exhausted_rewriter =
     emitting_rewriter
       \<lparr>vars := [plain_var [Register RAX] [3] 0],
        vars_by_location := (\<lambda>l. None)(Register RAX \<mapsto> Var 0,
                               Scratch 0 \<mapsto> LOCATION_PLACEHOLDER, Scratch 8 \<mapsto> LOCATION_PLACEHOLDER)\<rparr>"

text \<open>RAX and RCX are the valid registers; the occupant of RAX is next used by action 7,
  the occupant of RCX by action 9.\<close>

definition two_regs_rewriter :: Rewriter where
  "two_regs_rewriter =
     emitting_rewriter
       \<lparr>vars := [plain_var [Register RAX] [2, 7] 1, plain_var [Register RCX, Scratch 0] [9] 0],
        vars_by_location := (\<lambda>l. None)(Register RAX \<mapsto> Var 0, Register RCX \<mapsto> Var 1,
                               Scratch 0 \<mapsto> Var 1)\<rparr>"

text \<open>RAX holds a variable with no use left.  And a rewriter for one argument, as the
  constructor builds it, in the emit phase before guarding is done: the argument, used by
  the actions 0 and 2, is in RDI.\<close>

definition dead_occupant_rewriter :: Rewriter where
  "dead_occupant_rewriter =
     emitting_rewriter
       \<lparr>vars := [plain_var [Register RAX] [3] 1],
        vars_by_location := (\<lambda>l. None)(Register RAX \<mapsto> Var 0)\<rparr>"

definition pinned_arg_rewriter :: Rewriter where
  "pinned_arg_rewriter =
     (projr (Rewriter_new example_slot example_layout 1 [] False))
       \<lparr>vars := [(vars (projr (Rewriter_new example_slot example_layout 1 [] False)) ! 0)\<lparr>uses := [0, 2]\<rparr>],
        phase_emitting := True\<rparr>"

text \<open>In the collect phase: one variable, the constant 7.\<close>

definition const_guard_rewriter :: Rewriter where
  "const_guard_rewriter =
     (initial_rewriter example_slot example_layout False)
       \<lparr>vars := [const_var 7 [] []], loader_consts := [(7, 0)]\<rparr>"

text \<open>In the emit phase: one variable, the constant 0, used by action 0.\<close>

definition null_const_rewriter :: Rewriter where
  "null_const_rewriter =
     emitting_rewriter\<lparr>vars := [const_var 0 [] [0]], loader_consts := [(0, 0)]\<rparr>"

text \<open>In the emit phase, at action 0: the constant 0; an owned value in RDI that action 0
  consumes and action 1 uses again; a pointer in RSI.\<close>

definition consume_rewriter :: Rewriter where
  "consume_rewriter =
     emitting_rewriter
       \<lparr>vars := [const_var 0 [] [0],
                 new_var\<lparr>locations := [Register RDI], reftype := OWNED, uses := [0, 1],
                         num_refs_consumed := 1, last_refconsumed_numuses := 1\<rparr>,
                 plain_var [Register RSI] [0] 0],
        vars_by_location := (\<lambda>l. None)(Register RDI \<mapsto> Var 1, Register RSI \<mapsto> Var 2),
        loader_consts := [(0, 0)]\<rparr>"

text \<open>The action that stores variable 1 into a field of variable 2 and consumes its
  reference.\<close>

definition store_action :: RewriterAction where
  "store_action = \<lparr>action = OpSetAttr 2 24 1 MovQ, consumed_refs = [1]\<rparr>"

text \<open>A rewriter for seven arguments and a slot with eight scratch slots, as the
  constructor builds it; the seventh argument, passed on the stack, is marked as owned;
  then the emit phase, at action 0.\<close>

definition owned_stack_arg_rewriter :: Rewriter where
  "owned_stack_arg_rewriter =
     (projr (rbind (Rewriter_new (example_slot\<lparr>getScratchSize := 64\<rparr>) example_layout 7 [] False)
                   (setType 6 OWNED)))
       \<lparr>phase_emitting := True, done_guarding := True, current_action_idx := 0\<rparr>"

text \<open>In the emit phase: an owned variable in RAX only, an owned variable in scratch slot
  0, and a third variable in scratch slot 8; no callee-save register is allocatable.
  The action that calls the function at \<open>0x401000\<close>, a call that may throw, with no
  argument and no result; the function that runs the closures of such actions; and the
  rewriter right after the call instruction of that action.\<close>

definition call_rewriter :: Rewriter where
  "call_rewriter =
     emitting_rewriter
       \<lparr>vars := [new_var\<lparr>locations := [Register RAX], reftype := OWNED, uses := [0, 1]\<rparr>,
                 new_var\<lparr>locations := [Scratch 0], reftype := OWNED, uses := [0, 1]\<rparr>,
                 new_var\<lparr>locations := [Scratch 8], uses := [0, 1]\<rparr>],
        vars_by_location := (\<lambda>l. None)(Register RAX \<mapsto> Var 0, Scratch 0 \<mapsto> Var 1,
                               Scratch 8 \<mapsto> Var 2)\<rparr>"

definition call_action :: RewriterAction where
  "call_action = \<lparr>action = OpCall None False True 0x401000 [] [] [], consumed_refs = []\<rparr>"

definition call_exec :: "emit_op \<Rightarrow> Rewriter \<Rightarrow> error + Rewriter" where
  "call_exec op =
     (case op of
        OpCall result has_side_effects can_throw func_addr call_args args_xmm vars_to_bump \<Rightarrow>
          rw_call (\<lambda>u. Inr) (\<lambda>u. Inr) result has_side_effects can_throw func_addr call_args
            args_xmm vars_to_bump
      | _ \<Rightarrow> Inr)"

definition call_site_rewriter :: Rewriter where
  "call_site_rewriter =
     snd (projr (rw_call_site (\<lambda>u. Inr) False 0x401000 [] [] []
                   (call_rewriter\<lparr>current_action_idx := 0\<rparr>)))"

text \<open>A rewriter for one argument, as the constructor builds it; the same after a first
  attribute guard on the argument; and after a first load of the field at offset 16 of the
  argument into RAX.\<close>

definition one_arg_rewriter :: Rewriter where
  "one_arg_rewriter = projr (Rewriter_new example_slot example_layout 1 [] False)"

definition guarded_rewriter :: Rewriter where
  "guarded_rewriter = projr (addAttrGuard 0 16 0x1234 False one_arg_rewriter)"

definition attr_loaded_rewriter :: Rewriter where
  "attr_loaded_rewriter = snd (projr (getAttr 0 16 (Register RAX) MovQ one_arg_rewriter))"


section \<open>Properties\<close>

subsection \<open>Auxiliary facts\<close>

lemma rbind_simps [simp]:
  "rbind (Inl e) f = Inl e" "rbind (Inr x) f = f x"
  by (simp_all add: rbind_def)

lemma find_SomeD: "List.find P xs = Some x \<Longrightarrow> P x \<and> x \<in> set xs"
  by (induction xs) (auto split: if_splits)

lemma find_NoneD: "List.find P xs = None \<Longrightarrow> x \<in> set xs \<Longrightarrow> \<not> P x"
  by (induction xs) (auto split: if_splits)

lemma scratch_slots_Scratch: "l \<in> set (scratch_slots n) \<Longrightarrow> \<exists>off. l = Scratch off"
  by (auto simp: scratch_slots_def)

lemma scratch_slots_16: "scratch_slots 16 = [Scratch 0, Scratch 8]"
  by code_simp


subsection \<open>The spill policy\<close>

lemma spill_drop:
  assumes "vars_by_location st (Register reg) = Some (Var v)" "v < length (vars st)"
    "preserve_ok preserve" "Register reg \<in> set (locations (vars st ! v))"
    "spill_keeps_value (vars st ! v)"
  shows "\<exists>st'. spillRegister reg preserve st = Inr st' \<and> emitted st' = emitted st
     \<and> failed st' = failed st
     \<and> vars_by_location st' = (vars_by_location st)(Register reg := None)
     \<and> locations (vars st' ! v) = remove1 (Register reg) (locations (vars st ! v))"
  using assms
  by (simp add: spillRegister_def spill_keeps_value_def removeLocationFromVar_def isInLocation_def Let_def)

lemma spill_callee:
  assumes "vars_by_location st (Register reg) = Some (Var v)" "v < length (vars st)"
    "preserve_ok preserve" "Register reg \<in> set (locations (vars st ! v))"
    "\<not> spill_keeps_value (vars st ! v)" "\<not> failed st"
    "\<exists>r. free_callee_save st preserve r"
  shows "\<exists>st' new_reg. spillRegister reg preserve st = Inr st' \<and> free_callee_save st preserve new_reg
     \<and> emitted st' = emitted st @ [MovRR reg new_reg] \<and> \<not> failed st'
     \<and> vars_by_location st' = (vars_by_location st)(Register new_reg \<mapsto> Var v, Register reg := None)
     \<and> locations (vars st' ! v) = [Register new_reg]"
proof -
  let ?P = "\<lambda>new_reg. vars_by_location st (Register new_reg) = None \<and> Register new_reg \<noteq> preserve"
  let ?xs = "filter isCalleeSave (allocatable_regs st)"
  from assms(7) obtain r where "free_callee_save st preserve r" by blast
  then have "r \<in> set ?xs" "?P r" by (auto simp: free_callee_save_def)
  then obtain new_reg where f: "List.find ?P ?xs = Some new_reg"
    by (cases "List.find ?P ?xs") (auto dest: find_NoneD)
  then have n: "free_callee_save st preserve new_reg"
    by (auto dest!: find_SomeD simp: free_callee_save_def)
  have ne: "new_reg \<noteq> reg" using n assms(1) by (auto simp: free_callee_save_def)
  have locs: "locations (vars st ! v) = [Register reg]"
    using assms(4,5) by (cases "locations (vars st ! v)") (auto simp: spill_keeps_value_def)
  have nc: "\<not> is_constant (vars st ! v)" using assms(5) by (simp add: spill_keeps_value_def)
  have "spillRegister reg preserve st =
      Inr (emit (MovRR reg new_reg) st
            \<lparr>vars := (vars st)[v := (vars st ! v)\<lparr>locations := [Register new_reg]\<rparr>],
             vars_by_location := (vars_by_location st)(Register new_reg \<mapsto> Var v, Register reg := None)\<rparr>)"
    using assms f n ne locs nc
    by (simp add: spillRegister_def spill_keeps_value_def addLocationToVar_def removeLocationFromVar_def
        isInLocation_def Let_def emit_def free_callee_save_def stack_or_scratch_def)
  then show ?thesis using n assms(2,6) by (auto simp: emit_def)
qed

lemma spill_scratch:
  assumes "vars_by_location st (Register reg) = Some (Var v)" "v < length (vars st)"
    "preserve_ok preserve" "Register reg \<in> set (locations (vars st ! v))"
    "\<not> spill_keeps_value (vars st ! v)" "\<not> failed st" "phase_emitting st"
    "\<not> (\<exists>r. free_callee_save st preserve r)"
    "\<exists>off. free_scratch_slot st off"
  shows "\<exists>st' off. spillRegister reg preserve st = Inr st' \<and> free_scratch_slot st off
     \<and> emitted st' = emitted st @ [MovRM reg (Indirect RSP (getScratchRspOffset (rewrite st) + off))]
     \<and> \<not> failed st'
     \<and> vars_by_location st' = (vars_by_location st)(Scratch off \<mapsto> Var v, Register reg := None)
     \<and> locations (vars st' ! v) = [Scratch off]"
proof -
  let ?P = "\<lambda>new_reg. vars_by_location st (Register new_reg) = None \<and> Register new_reg \<noteq> preserve"
  let ?xs = "filter isCalleeSave (allocatable_regs st)"
  let ?Q = "\<lambda>l. vars_by_location st l = None"
  let ?ys = "scratch_slots (getScratchSize (rewrite st))"
  have f: "List.find ?P ?xs = None"
  proof (cases "List.find ?P ?xs")
    case (Some r)
    then have "free_callee_save st preserve r" by (auto dest!: find_SomeD simp: free_callee_save_def)
    with assms(8) show ?thesis by blast
  qed simp
  from assms(9) obtain off0 where "Scratch off0 \<in> set ?ys" "?Q (Scratch off0)"
    by (auto simp: free_scratch_slot_def)
  then obtain l where g: "List.find ?Q ?ys = Some l"
    by (cases "List.find ?Q ?ys") (auto dest: find_NoneD)
  then have l: "l \<in> set ?ys" "?Q l" by (auto dest!: find_SomeD)
  then obtain off where off: "l = Scratch off" by (auto dest: scratch_slots_Scratch)
  have locs: "locations (vars st ! v) = [Register reg]"
    using assms(4,5) by (cases "locations (vars st ! v)") (auto simp: spill_keeps_value_def)
  have nc: "\<not> is_constant (vars st ! v)" using assms(5) by (simp add: spill_keeps_value_def)
  have "spillRegister reg preserve st =
      Inr (emit (MovRM reg (Indirect RSP (getScratchRspOffset (rewrite st) + off))) st
            \<lparr>vars := (vars st)[v := (vars st ! v)\<lparr>locations := [Scratch off]\<rparr>],
             vars_by_location := (vars_by_location st)(Scratch off \<mapsto> Var v, Register reg := None)\<rparr>)"
    using assms f g l off locs nc
    by (simp add: spillRegister_def spill_keeps_value_def addLocationToVar_def removeLocationFromVar_def
        isInLocation_def Let_def emit_def allocScratch_def indirectFor_def stack_or_scratch_def)
  then show ?thesis using l off assms(2,6) by (auto simp: emit_def free_scratch_slot_def)
qed

lemma spill_exhausted:
  assumes "vars_by_location st (Register reg) = Some (Var v)"
    "preserve_ok preserve"
    "\<not> spill_keeps_value (vars st ! v)" "phase_emitting st"
    "\<not> (\<exists>r. free_callee_save st preserve r)"
    "\<not> (\<exists>off. free_scratch_slot st off)"
  shows "spillRegister reg preserve st = Inr (st\<lparr>failed := True\<rparr>)"
proof -
  let ?P = "\<lambda>new_reg. vars_by_location st (Register new_reg) = None \<and> Register new_reg \<noteq> preserve"
  let ?xs = "filter isCalleeSave (allocatable_regs st)"
  let ?Q = "\<lambda>l. vars_by_location st l = None"
  let ?ys = "scratch_slots (getScratchSize (rewrite st))"
  have f: "List.find ?P ?xs = None"
  proof (cases "List.find ?P ?xs")
    case (Some r)
    then have "free_callee_save st preserve r" by (auto dest!: find_SomeD simp: free_callee_save_def)
    with assms(5) show ?thesis by blast
  qed simp
  have g: "List.find ?Q ?ys = None"
  proof (cases "List.find ?Q ?ys")
    case (Some l)
    then have l: "l \<in> set ?ys" "?Q l" by (auto dest!: find_SomeD)
    then obtain off where "l = Scratch off" by (auto dest: scratch_slots_Scratch)
    with l assms(6) show ?thesis by (auto simp: free_scratch_slot_def)
  qed simp
  show ?thesis using assms f g
    by (simp add: spillRegister_def spill_keeps_value_def allocScratch_def Let_def)
qed

text \<open>
  Claim C3, as the code has it.  \<^verbatim>\<open>spillRegister(reg, preserve)\<close> on a register that
  holds a variable \<open>v\<close>, in a rewriter that has not failed, returns, and it follows three
  steps in order.  (1) If \<open>v\<close> has another location, is a constant or owns a scratch
  allocation, the register is dropped from the locations of \<open>v\<close> and no code is emitted.
  (2) Otherwise, if there is a free allocatable callee-save register other than
  \<open>preserve\<close>, the value is moved into one (\<^verbatim>\<open>mov reg, new_reg\<close>), which becomes the
  only location of \<open>v\<close>.  (3) Otherwise, if a scratch slot is free, the store
  \<^verbatim>\<open>mov reg, [rsp + scratch offset]\<close> is emitted and the slot becomes the only location
  of \<open>v\<close>; if none is free, \<open>failed\<close> is set and nothing is emitted.
\<close>

theorem spillRegister_policy:
  assumes "vars_by_location st (Register reg) = Some (Var v)" and "v < length (vars st)"
    and "preserve_ok preserve" and "Register reg \<in> set (locations (vars st ! v))"
    and "phase_emitting st" and "\<not> failed st"
  shows "\<exists>st'. spillRegister reg preserve st = Inr st'
     \<and> (if spill_keeps_value (vars st ! v) then
          emitted st' = emitted st \<and> \<not> failed st'
          \<and> vars_by_location st' = (vars_by_location st)(Register reg := None)
          \<and> locations (vars st' ! v) = remove1 (Register reg) (locations (vars st ! v))
        else if \<exists>r. free_callee_save st preserve r then
          \<exists>new_reg. free_callee_save st preserve new_reg
            \<and> emitted st' = emitted st @ [MovRR reg new_reg] \<and> \<not> failed st'
            \<and> vars_by_location st'
                = (vars_by_location st)(Register new_reg \<mapsto> Var v, Register reg := None)
            \<and> locations (vars st' ! v) = [Register new_reg]
        else if \<exists>off. free_scratch_slot st off then
          \<exists>off. free_scratch_slot st off
            \<and> emitted st'
                = emitted st @ [MovRM reg (Indirect RSP (getScratchRspOffset (rewrite st) + off))]
            \<and> \<not> failed st'
            \<and> vars_by_location st'
                = (vars_by_location st)(Scratch off \<mapsto> Var v, Register reg := None)
            \<and> locations (vars st' ! v) = [Scratch off]
        else st' = st\<lparr>failed := True\<rparr>)"
proof (cases "spill_keeps_value (vars st ! v)")
  case True
  with spill_drop[OF assms(1-4) True] assms(6) show ?thesis by auto
next
  case k: False
  show ?thesis
  proof (cases "\<exists>r. free_callee_save st preserve r")
    case True
    with spill_callee[OF assms(1-4) k assms(6) True] k show ?thesis by auto
  next
    case c: False
    show ?thesis
    proof (cases "\<exists>off. free_scratch_slot st off")
      case True
      with spill_scratch[OF assms(1-4) k assms(6) assms(5) c True] k c show ?thesis by auto
    next
      case False
      with spill_exhausted[OF assms(1) assms(3) k assms(5) c False] k c show ?thesis by simp
    qed
  qed
qed

text \<open>At an input: the variable in RAX is moved to R12, the free allocatable callee-save
  register.\<close>

theorem spillRegister_policy_witness:
  "vars_by_location spill_rewriter (Register RAX) = Some (Var 0)
   \<and> 0 < length (vars spill_rewriter) \<and> preserve_ok AnyReg
   \<and> Register RAX \<in> set (locations (vars spill_rewriter ! 0))
   \<and> phase_emitting spill_rewriter \<and> \<not> failed spill_rewriter
   \<and> \<not> spill_keeps_value (vars spill_rewriter ! 0)
   \<and> free_callee_save spill_rewriter AnyReg R12
   \<and> map_sum id emitted (spillRegister RAX AnyReg spill_rewriter) = Inr [MovRR RAX R12]"
proof -
  have h: "vars_by_location spill_rewriter (Register RAX) = Some (Var 0)"
    "0 < length (vars spill_rewriter)" "preserve_ok AnyReg"
    "Register RAX \<in> set (locations (vars spill_rewriter ! 0))"
    "phase_emitting spill_rewriter" "\<not> failed spill_rewriter"
    by code_simp+
  have k: "\<not> spill_keeps_value (vars spill_rewriter ! 0)" by code_simp
  have f12: "free_callee_save spill_rewriter AnyReg R12" by code_simp
  have f: "free_callee_save spill_rewriter AnyReg r \<Longrightarrow> r = R12" for r
    by (cases r)
       (simp_all add: free_callee_save_def isCalleeSave_def std_allocatable_regs_def
          spill_rewriter_def)
  have e: "emitted spill_rewriter = []" by code_simp
  from spillRegister_policy[OF h] obtain st' where
    s: "spillRegister RAX AnyReg spill_rewriter = Inr st'"
    and c: "if spill_keeps_value (vars spill_rewriter ! 0) then
          emitted st' = emitted spill_rewriter \<and> \<not> failed st'
          \<and> vars_by_location st' = (vars_by_location spill_rewriter)(Register RAX := None)
          \<and> locations (vars st' ! 0) = remove1 (Register RAX) (locations (vars spill_rewriter ! 0))
        else if \<exists>r. free_callee_save spill_rewriter AnyReg r then
          \<exists>new_reg. free_callee_save spill_rewriter AnyReg new_reg
            \<and> emitted st' = emitted spill_rewriter @ [MovRR RAX new_reg] \<and> \<not> failed st'
            \<and> vars_by_location st'
                = (vars_by_location spill_rewriter)(Register new_reg \<mapsto> Var 0, Register RAX := None)
            \<and> locations (vars st' ! 0) = [Register new_reg]
        else if \<exists>off. free_scratch_slot spill_rewriter off then
          \<exists>off. free_scratch_slot spill_rewriter off
            \<and> emitted st'
                = emitted spill_rewriter @ [MovRM RAX (Indirect RSP (getScratchRspOffset (rewrite spill_rewriter) + off))]
            \<and> \<not> failed st'
            \<and> vars_by_location st'
                = (vars_by_location spill_rewriter)(Scratch off \<mapsto> Var 0, Register RAX := None)
            \<and> locations (vars st' ! 0) = [Scratch off]
        else st' = spill_rewriter\<lparr>failed := True\<rparr>"
    by blast
  have ex: "\<exists>r. free_callee_save spill_rewriter AnyReg r" using f12 by blast
  from c k ex obtain new_reg where "free_callee_save spill_rewriter AnyReg new_reg"
    "emitted st' = emitted spill_rewriter @ [MovRR RAX new_reg]"
    by (simp only: if_False if_True) blast
  with f[of new_reg] e have "emitted st' = [MovRR RAX R12]" by simp
  with s have "map_sum id emitted (spillRegister RAX AnyReg spill_rewriter) = Inr [MovRR RAX R12]"
    by simp
  with h k f12 show ?thesis by blast
qed

text \<open>Where C3 as it is stated fails.  With \<open>preserve = R12\<close>, R12 is a free
  allocatable callee-save register, and yet the value goes to a scratch slot.  With every
  scratch slot taken and no callee-save register allocatable, no slot is allocated and no
  store is emitted: the rewrite is marked failed.\<close>

theorem spillRegister_counterexample:
  "isCalleeSave R12 \<and> R12 \<in> set (allocatable_regs spill_rewriter)
   \<and> vars_by_location spill_rewriter (Register R12) = None
   \<and> map_sum id emitted (spillRegister RAX (Register R12) spill_rewriter)
       = Inr [MovRM RAX (Indirect RSP 32)]
   \<and> map_sum id failed (spillRegister RAX AnyReg exhausted_rewriter) = Inr True
   \<and> map_sum id emitted (spillRegister RAX AnyReg exhausted_rewriter) = Inr []"
  by code_simp


subsection \<open>Register allocation with the hint AnyReg\<close>

lemma scan_free:
  "list_all (scannable st) regs \<Longrightarrow> \<exists>q \<in> set regs. Register q \<noteq> ot \<and> vars_by_location st (Register q) = None \<Longrightarrow>
     \<exists>r. allocReg_scan st ot regs best found breg = Inr (FreeReg r) \<and> free_reg st ot regs r"
proof (induction regs arbitrary: best found breg)
  case Nil
  then show ?case by simp
next
  case (Cons a regs)
  show ?case
  proof (cases "Register a \<noteq> ot \<and> vars_by_location st (Register a) = None")
    case True
    then show ?thesis by (simp add: free_reg_def)
  next
    case False
    with Cons.prems have ex: "\<exists>q \<in> set regs. Register q \<noteq> ot \<and> vars_by_location st (Register q) = None"
      by auto
    from Cons.prems have la: "list_all (scannable st) regs" and sa: "scannable st a" by simp_all
    note ih = Cons.IH[OF la ex]
    have fr: "free_reg st ot regs r \<Longrightarrow> free_reg st ot (a # regs) r" for r
      by (simp add: free_reg_def)
    show ?thesis
    proof (cases "Register a = ot")
      case True
      then show ?thesis using ih[of best found breg] fr by auto
    next
      case ne: False
      with False obtain x where x: "vars_by_location st (Register a) = Some x" by auto
      with sa obtain v where v: "x = Var v" "next_use (vars st ! v) \<le> length (uses (vars st ! v))"
        by (cases x) (auto simp: scannable_def)
      show ?thesis
        using ne x v ih[of best found breg] ih[of "int (uses (vars st ! v) ! next_use (vars st ! v))" True a] fr
        by (auto simp: Let_def)
    qed
  qed
qed

lemma scan_best:
  "list_all (scannable st) regs \<Longrightarrow> \<not> (\<exists>q \<in> set regs. Register q \<noteq> ot \<and> vars_by_location st (Register q) = None) \<Longrightarrow>
     \<exists>b f r. allocReg_scan st ot regs best found breg = Inr (Best b f r)
       \<and> best \<le> b
       \<and> (\<forall>q \<in> set regs. spill_candidate st ot q \<longrightarrow> int (next_use_at st q) \<le> b)
       \<and> ((b = best \<and> r = breg \<and> f = found)
          \<or> (best < b \<and> r \<in> set regs \<and> spill_candidate st ot r \<and> int (next_use_at st r) = b \<and> f))"
proof (induction regs arbitrary: best found breg)
  case Nil
  then show ?case by simp
next
  case (Cons a regs)
  from Cons.prems have la: "list_all (scannable st) regs" and sa: "scannable st a"
    and nf: "\<not> (\<exists>q \<in> set regs. Register q \<noteq> ot \<and> vars_by_location st (Register q) = None)"
    and na: "\<not> (Register a \<noteq> ot \<and> vars_by_location st (Register a) = None)"
    by simp_all
  note ih = Cons.IH[OF la nf]
  show ?case
  proof (cases "Register a = ot")
    case True
    then have nc: "\<not> spill_candidate st ot a" by (simp add: spill_candidate_def)
    from ih[of best found breg] obtain b f r where
      r: "allocReg_scan st ot regs best found breg = Inr (Best b f r)" "best \<le> b"
      "\<forall>q \<in> set regs. spill_candidate st ot q \<longrightarrow> int (next_use_at st q) \<le> b"
      "(b = best \<and> r = breg \<and> f = found)
          \<or> (best < b \<and> r \<in> set regs \<and> spill_candidate st ot r \<and> int (next_use_at st r) = b \<and> f)"
      by blast
    then show ?thesis using True nc by auto
  next
    case ne: False
    with na obtain x where x: "vars_by_location st (Register a) = Some x" by auto
    with sa obtain v where v: "x = Var v" "next_use (vars st ! v) \<le> length (uses (vars st ! v))"
      by (cases x) (auto simp: scannable_def)
    let ?u = "int (uses (vars st ! v) ! next_use (vars st ! v))"
    have nu: "int (next_use_at st a) = ?u" using x v by (simp add: next_use_at_def)
    show ?thesis
    proof (cases "spill_candidate st ot a \<and> ?u > best")
      case True
      then have eq: "allocReg_scan st ot (a # regs) best found breg = allocReg_scan st ot regs ?u True a"
        using ne x v by (auto simp: spill_candidate_def Let_def)
      from ih[of ?u True a] obtain b f r where
        r: "allocReg_scan st ot regs ?u True a = Inr (Best b f r)" "?u \<le> b"
        "\<forall>q \<in> set regs. spill_candidate st ot q \<longrightarrow> int (next_use_at st q) \<le> b"
        "(b = ?u \<and> r = a \<and> f = True)
          \<or> (?u < b \<and> r \<in> set regs \<and> spill_candidate st ot r \<and> int (next_use_at st r) = b \<and> f)"
        by blast
      show ?thesis using eq r True nu by auto
    next
      case False
      then have eq: "allocReg_scan st ot (a # regs) best found breg = allocReg_scan st ot regs best found breg"
        using ne x v by (auto simp: spill_candidate_def Let_def)
      from ih[of best found breg] obtain b f r where
        r: "allocReg_scan st ot regs best found breg = Inr (Best b f r)" "best \<le> b"
        "\<forall>q \<in> set regs. spill_candidate st ot q \<longrightarrow> int (next_use_at st q) \<le> b"
        "(b = best \<and> r = breg \<and> f = found)
          \<or> (best < b \<and> r \<in> set regs \<and> spill_candidate st ot r \<and> int (next_use_at st r) = b \<and> f)"
        by blast
      show ?thesis using eq r False nu by auto
    qed
  qed
qed

lemma spill_outcome:
  assumes "vars_by_location st (Register reg) = Some (Var v)" and "v < length (vars st)"
    and "preserve_ok preserve" and "Register reg \<in> set (locations (vars st ! v))"
    and "phase_emitting st" and "\<not> failed st"
  shows "\<exists>st'. spillRegister reg preserve st = Inr st'
     \<and> (failed st' \<or> vars_by_location st' (Register reg) = None)
     \<and> (if spill_keeps_value (vars st ! v) then
          emitted st' = emitted st \<and> \<not> failed st'
          \<and> vars_by_location st' = (vars_by_location st)(Register reg := None)
          \<and> locations (vars st' ! v) = remove1 (Register reg) (locations (vars st ! v))
        else if \<exists>r. free_callee_save st preserve r then
          \<exists>new_reg. free_callee_save st preserve new_reg
            \<and> emitted st' = emitted st @ [MovRR reg new_reg] \<and> \<not> failed st'
            \<and> vars_by_location st'
                = (vars_by_location st)(Register new_reg \<mapsto> Var v, Register reg := None)
            \<and> locations (vars st' ! v) = [Register new_reg]
        else if \<exists>off. free_scratch_slot st off then
          \<exists>off. free_scratch_slot st off
            \<and> emitted st'
                = emitted st @ [MovRM reg (Indirect RSP (getScratchRspOffset (rewrite st) + off))]
            \<and> \<not> failed st'
            \<and> vars_by_location st'
                = (vars_by_location st)(Scratch off \<mapsto> Var v, Register reg := None)
            \<and> locations (vars st' ! v) = [Scratch off]
        else st' = st\<lparr>failed := True\<rparr>)"
proof (cases "spill_keeps_value (vars st ! v)")
  case True
  with spill_drop[OF assms(1-4) True] assms(6) show ?thesis by auto
next
  case k: False
  show ?thesis
  proof (cases "\<exists>r. free_callee_save st preserve r")
    case True
    with spill_callee[OF assms(1-4) k assms(6) True] k show ?thesis by auto
  next
    case c: False
    show ?thesis
    proof (cases "\<exists>off. free_scratch_slot st off")
      case True
      with spill_scratch[OF assms(1-4) k assms(6) assms(5) c True] k c show ?thesis by auto
    next
      case False
      with spill_exhausted[OF assms(1) assms(3) k assms(5) c False] k c show ?thesis by simp
    qed
  qed
qed

text \<open>
  Claim C4, as the code has it.  \<^verbatim>\<open>allocReg\<close> with the hint \<open>AnyReg\<close>, in the emit
  phase of a rewrite that has not failed, over valid registers whose entries can be read
  and whose occupants list them.  If a free valid register other than \<open>otherThan\<close>
  exists, such a register is returned and nothing changes.  Otherwise, if some register
  can be spilled (it is not \<open>otherThan\<close>, its occupant has a use left and, while
  guarding is not done, is not an entry argument at its argument location), the call
  returns a register \<open>r\<close> that can be spilled and whose occupant's next use
  \<open>uses[next_use]\<close> is maximal among the registers that can be spilled; \<open>r\<close> has been
  spilled: it is free on return, unless the rewrite has failed, and its occupant \<open>v\<close> has
  been dropped from it, moved to a free callee-save register or stored to a free scratch
  slot, with exactly the code of \<^verbatim>\<open>spillRegister\<close>.  If no register can be spilled the
  assertion \<^verbatim>\<open>assert(found)\<close> fails.  While guarding is not done, the register returned
  never holds an entry argument pinned at its argument location.
\<close>

theorem allocReg_any_policy:
  assumes "phase_emitting st" and "\<not> failed st" and "preserve_ok otherThan"
    and "list_all (scannable st) valid_registers"
    and "list_all (occupant_listed st) valid_registers"
  shows "(if \<exists>q. free_reg st otherThan valid_registers q then
            \<exists>r. free_reg st otherThan valid_registers r
               \<and> allocReg AnyReg otherThan valid_registers st = Inr (r, st)
          else if \<exists>q \<in> set valid_registers. spill_candidate st otherThan q then
            \<exists>r v st'. r \<in> set valid_registers \<and> spill_candidate st otherThan r
               \<and> (\<forall>q \<in> set valid_registers. spill_candidate st otherThan q
                      \<longrightarrow> next_use_at st q \<le> next_use_at st r)
               \<and> vars_by_location st (Register r) = Some (Var v)
               \<and> allocReg AnyReg otherThan valid_registers st = Inr (r, st')
               \<and> (failed st' \<or> vars_by_location st' (Register r) = None)
               \<and> (if spill_keeps_value (vars st ! v) then
                    emitted st' = emitted st \<and> \<not> failed st'
                    \<and> vars_by_location st' = (vars_by_location st)(Register r := None)
                    \<and> locations (vars st' ! v) = remove1 (Register r) (locations (vars st ! v))
                  else if \<exists>q. free_callee_save st otherThan q then
                    \<exists>new_reg. free_callee_save st otherThan new_reg
                      \<and> emitted st' = emitted st @ [MovRR r new_reg] \<and> \<not> failed st'
                      \<and> vars_by_location st'
                          = (vars_by_location st)(Register new_reg \<mapsto> Var v, Register r := None)
                      \<and> locations (vars st' ! v) = [Register new_reg]
                  else if \<exists>off. free_scratch_slot st off then
                    \<exists>off. free_scratch_slot st off
                      \<and> emitted st'
                          = emitted st @ [MovRM r (Indirect RSP (getScratchRspOffset (rewrite st) + off))]
                      \<and> \<not> failed st'
                      \<and> vars_by_location st'
                          = (vars_by_location st)(Scratch off \<mapsto> Var v, Register r := None)
                      \<and> locations (vars st' ! v) = [Scratch off]
                  else st' = st\<lparr>failed := True\<rparr>)
          else allocReg AnyReg otherThan valid_registers st = Inl AssertFail)
     \<and> (\<forall>r st'. allocReg AnyReg otherThan valid_registers st = Inr (r, st') \<and> \<not> done_guarding st
            \<longrightarrow> \<not> pinned_arg st r)"
proof -
  let ?free = "\<exists>q. free_reg st otherThan valid_registers q"
  let ?cand = "\<exists>q \<in> set valid_registers. spill_candidate st otherThan q"
  let ?A = "allocReg AnyReg otherThan valid_registers st"
  let ?out = "\<lambda>r v st'. (if spill_keeps_value (vars st ! v) then
                    emitted st' = emitted st \<and> \<not> failed st'
                    \<and> vars_by_location st' = (vars_by_location st)(Register r := None)
                    \<and> locations (vars st' ! v) = remove1 (Register r) (locations (vars st ! v))
                  else if \<exists>q. free_callee_save st otherThan q then
                    \<exists>new_reg. free_callee_save st otherThan new_reg
                      \<and> emitted st' = emitted st @ [MovRR r new_reg] \<and> \<not> failed st'
                      \<and> vars_by_location st'
                          = (vars_by_location st)(Register new_reg \<mapsto> Var v, Register r := None)
                      \<and> locations (vars st' ! v) = [Register new_reg]
                  else if \<exists>off. free_scratch_slot st off then
                    \<exists>off. free_scratch_slot st off
                      \<and> emitted st'
                          = emitted st @ [MovRM r (Indirect RSP (getScratchRspOffset (rewrite st) + off))]
                      \<and> \<not> failed st'
                      \<and> vars_by_location st'
                          = (vars_by_location st)(Scratch off \<mapsto> Var v, Register r := None)
                      \<and> locations (vars st' ! v) = [Scratch off]
                  else st' = st\<lparr>failed := True\<rparr>)"
  have fr: "?free \<longleftrightarrow> (\<exists>q \<in> set valid_registers. Register q \<noteq> otherThan
                              \<and> vars_by_location st (Register q) = None)"
    by (auto simp: free_reg_def)
  have p1: "?free \<Longrightarrow> \<exists>r. free_reg st otherThan valid_registers r \<and> ?A = Inr (r, st)"
  proof -
    assume ?free
    with fr scan_free[OF assms(4), of otherThan "- 1" False RAX] obtain r where
      "allocReg_scan st otherThan valid_registers (- 1) False RAX = Inr (FreeReg r)"
      "free_reg st otherThan valid_registers r" by blast
    then show "\<exists>r. free_reg st otherThan valid_registers r \<and> ?A = Inr (r, st)"
      using assms(1) by (auto simp: allocReg_def)
  qed
  have best: "\<not> ?free \<Longrightarrow> \<exists>b f r. allocReg_scan st otherThan valid_registers (- 1) False RAX = Inr (Best b f r)
       \<and> (\<forall>q \<in> set valid_registers. spill_candidate st otherThan q \<longrightarrow> int (next_use_at st q) \<le> b)
       \<and> ((b = - 1 \<and> \<not> f)
          \<or> (r \<in> set valid_registers \<and> spill_candidate st otherThan r \<and> int (next_use_at st r) = b \<and> f))"
    using scan_best[OF assms(4), of otherThan "- 1" False RAX] fr by auto
  have p2: "\<exists>r v st'. r \<in> set valid_registers \<and> spill_candidate st otherThan r
               \<and> (\<forall>q \<in> set valid_registers. spill_candidate st otherThan q
                      \<longrightarrow> next_use_at st q \<le> next_use_at st r)
               \<and> vars_by_location st (Register r) = Some (Var v)
               \<and> ?A = Inr (r, st')
               \<and> (failed st' \<or> vars_by_location st' (Register r) = None)
               \<and> ?out r v st'" if a: "\<not> ?free" "?cand"
  proof -
    from a best obtain b f r where
      s: "allocReg_scan st otherThan valid_registers (- 1) False RAX = Inr (Best b f r)"
      and m: "\<forall>q \<in> set valid_registers. spill_candidate st otherThan q \<longrightarrow> int (next_use_at st q) \<le> b"
      and d: "(b = - 1 \<and> \<not> f)
          \<or> (r \<in> set valid_registers \<and> spill_candidate st otherThan r \<and> int (next_use_at st r) = b \<and> f)"
      by blast
    from a obtain q where "q \<in> set valid_registers" "spill_candidate st otherThan q" by blast
    with m have "0 \<le> b" by force
    with d have r: "r \<in> set valid_registers" "spill_candidate st otherThan r"
      "int (next_use_at st r) = b" "f" by auto
    have mx: "\<forall>q \<in> set valid_registers. spill_candidate st otherThan q
                      \<longrightarrow> next_use_at st q \<le> next_use_at st r"
      using m r(3) by auto
    from r(2) obtain v where v: "vars_by_location st (Register r) = Some (Var v)"
      by (auto simp: spill_candidate_def split: option.splits var_ref.splits)
    from assms(5) r(1) have "occupant_listed st r" by (simp add: list_all_iff)
    with v have ol: "v < length (vars st)" "Register r \<in> set (locations (vars st ! v))"
      by (simp_all add: occupant_listed_def)
    from spill_outcome[OF v ol(1) assms(3) ol(2) assms(1) assms(2)] obtain st' where
      sp: "spillRegister r otherThan st = Inr st'"
      and fv: "failed st' \<or> vars_by_location st' (Register r) = None"
      and out: "?out r v st'" by blast
    have "?A = Inr (r, st')"
      using s r(4) assms(1) sp fv by (auto simp: allocReg_def)
    with r(1,2) mx v fv out show ?thesis by blast
  qed
  have p3: "?A = Inl AssertFail" if a: "\<not> ?free" "\<not> ?cand"
  proof -
    from a best obtain b f r where
      s: "allocReg_scan st otherThan valid_registers (- 1) False RAX = Inr (Best b f r)"
      and d: "(b = - 1 \<and> \<not> f)
          \<or> (r \<in> set valid_registers \<and> spill_candidate st otherThan r \<and> int (next_use_at st r) = b \<and> f)"
      by blast
    with a have "\<not> f" by blast
    with s assms(1) show "?A = Inl AssertFail" by (simp add: allocReg_def)
  qed
  have p4: "\<forall>r st'. ?A = Inr (r, st') \<and> \<not> done_guarding st \<longrightarrow> \<not> pinned_arg st r"
  proof (intro allI impI)
    fix r st'
    assume a: "?A = Inr (r, st') \<and> \<not> done_guarding st"
    show "\<not> pinned_arg st r"
    proof (cases ?free)
      case True
      with p1 a have "free_reg st otherThan valid_registers r" by auto
      then show ?thesis by (simp add: free_reg_def pinned_arg_def)
    next
      case nf: False
      show ?thesis
      proof (cases ?cand)
        case True
        from p2[OF nf True] obtain r0 s0 where r0: "spill_candidate st otherThan r0"
          "?A = Inr (r0, s0)" by blast
        with a have "r = r0" by simp
        with r0(1) a show ?thesis
          by (auto simp: spill_candidate_def pinned_arg_def split: option.splits var_ref.splits)
      next
        case False
        with p3[OF nf] a show ?thesis by simp
      qed
    qed
  qed
  show ?thesis
  proof (cases ?free)
    case True
    with p1 p4 show ?thesis by simp
  next
    case nf: False
    show ?thesis
    proof (cases ?cand)
      case True
      from p2[OF nf True] nf True p4 show ?thesis by (simp only: if_False if_True)
    next
      case False
      with p3[OF nf] nf p4 show ?thesis by simp
    qed
  qed
qed

text \<open>At inputs: with RAX and RCX occupied, RCX is chosen (next use 9 against 7), and
  its occupant, which is in a scratch slot as well, is dropped from it; with RDX valid
  too and free, RDX is returned; with RAX alone valid, its occupant is moved to R12 and
  RAX is returned.\<close>

theorem allocReg_any_policy_witness:
  "phase_emitting two_regs_rewriter \<and> \<not> failed two_regs_rewriter \<and> preserve_ok AnyReg
   \<and> list_all (scannable two_regs_rewriter) [RAX, RCX, RDX]
   \<and> list_all (occupant_listed two_regs_rewriter) [RAX, RCX, RDX]
   \<and> next_use_at two_regs_rewriter RAX = 7 \<and> next_use_at two_regs_rewriter RCX = 9
   \<and> (\<exists>st'. allocReg AnyReg AnyReg [RAX, RCX] two_regs_rewriter = Inr (RCX, st')
         \<and> emitted st' = [] \<and> vars_by_location st' (Register RCX) = None
         \<and> locations (vars st' ! 1) = [Scratch 0])
   \<and> allocReg AnyReg AnyReg [RAX, RCX, RDX] two_regs_rewriter = Inr (RDX, two_regs_rewriter)
   \<and> (\<exists>st'. allocReg AnyReg AnyReg [RAX] spill_rewriter = Inr (RAX, st')
         \<and> emitted st' = [MovRR RAX R12] \<and> vars_by_location st' (Register RAX) = None
         \<and> locations (vars st' ! 0) = [Register R12])"
proof -
  let ?S = two_regs_rewriter
  let ?T = spill_rewriter
  have h: "phase_emitting ?S" "\<not> failed ?S" "preserve_ok AnyReg" by code_simp+
  have h2: "list_all (scannable ?S) [RAX, RCX]" "list_all (occupant_listed ?S) [RAX, RCX]"
    by code_simp+
  have h3: "list_all (scannable ?S) [RAX, RCX, RDX]" "list_all (occupant_listed ?S) [RAX, RCX, RDX]"
    by code_simp+
  have n: "\<not> free_reg ?S AnyReg [RAX, RCX] RAX" "\<not> free_reg ?S AnyReg [RAX, RCX] RCX"
    "spill_candidate ?S AnyReg RAX" "spill_candidate ?S AnyReg RCX"
    "next_use_at ?S RAX = 7" "next_use_at ?S RCX = 9"
    by code_simp+
  have nf: "\<not> (\<exists>q. free_reg ?S AnyReg [RAX, RCX] q)"
    using n(1,2) by (auto simp: free_reg_def)
  have c: "\<exists>q \<in> set [RAX, RCX]. spill_candidate ?S AnyReg q" using n(3) by simp
  have k: "vars_by_location ?S (Register RCX) = Some (Var 1)" "spill_keeps_value (vars ?S ! 1)"
    "emitted ?S = []" "remove1 (Register RCX) (locations (vars ?S ! 1)) = [Scratch 0]"
    by code_simp+
  from allocReg_any_policy[OF h h2] nf c obtain r v st' where
    r: "r \<in> set [RAX, RCX]"
    "\<forall>q \<in> set [RAX, RCX]. spill_candidate ?S AnyReg q \<longrightarrow> next_use_at ?S q \<le> next_use_at ?S r"
    "vars_by_location ?S (Register r) = Some (Var v)"
    "allocReg AnyReg AnyReg [RAX, RCX] ?S = Inr (r, st')"
    "if spill_keeps_value (vars ?S ! v) then
        emitted st' = emitted ?S \<and> \<not> failed st'
        \<and> vars_by_location st' = (vars_by_location ?S)(Register r := None)
        \<and> locations (vars st' ! v) = remove1 (Register r) (locations (vars ?S ! v))
      else if \<exists>q. free_callee_save ?S AnyReg q then
        \<exists>new_reg. free_callee_save ?S AnyReg new_reg
          \<and> emitted st' = emitted ?S @ [MovRR r new_reg] \<and> \<not> failed st'
          \<and> vars_by_location st'
              = (vars_by_location ?S)(Register new_reg \<mapsto> Var v, Register r := None)
          \<and> locations (vars st' ! v) = [Register new_reg]
      else if \<exists>off. free_scratch_slot ?S off then
        \<exists>off. free_scratch_slot ?S off
          \<and> emitted st'
              = emitted ?S @ [MovRM r (Indirect RSP (getScratchRspOffset (rewrite ?S) + off))]
          \<and> \<not> failed st'
          \<and> vars_by_location st'
              = (vars_by_location ?S)(Scratch off \<mapsto> Var v, Register r := None)
          \<and> locations (vars st' ! v) = [Scratch off]
      else st' = ?S\<lparr>failed := True\<rparr>"
    by (simp only: if_False if_True) blast
  from r(1,2) n have req: "r = RCX" by auto
  with r(3) k(1) have veq: "v = 1" by simp
  from r(5) req veq k(2) have o: "emitted st' = emitted ?S"
    "vars_by_location st' = (vars_by_location ?S)(Register RCX := None)"
    "locations (vars st' ! 1) = remove1 (Register RCX) (locations (vars ?S ! 1))"
    by simp_all
  have a: "\<exists>st'. allocReg AnyReg AnyReg [RAX, RCX] ?S = Inr (RCX, st')
         \<and> emitted st' = [] \<and> vars_by_location st' (Register RCX) = None
         \<and> locations (vars st' ! 1) = [Scratch 0]"
    using r(4) req o k(3,4) by simp
  have f: "free_reg ?S AnyReg [RAX, RCX, RDX] RDX" by code_simp
  have fo: "free_reg ?S AnyReg [RAX, RCX, RDX] q \<Longrightarrow> q = RDX" for q
    by (cases q) (simp_all add: free_reg_def two_regs_rewriter_def)
  have ex3: "\<exists>q. free_reg ?S AnyReg [RAX, RCX, RDX] q" using f by blast
  from allocReg_any_policy[OF h h3] ex3 obtain r3 where
    "free_reg ?S AnyReg [RAX, RCX, RDX] r3" "allocReg AnyReg AnyReg [RAX, RCX, RDX] ?S = Inr (r3, ?S)"
    by (simp only: if_False if_True) blast
  with fo have b: "allocReg AnyReg AnyReg [RAX, RCX, RDX] ?S = Inr (RDX, ?S)" by simp
  have g: "phase_emitting ?T" "\<not> failed ?T" "list_all (scannable ?T) [RAX]"
    "list_all (occupant_listed ?T) [RAX]" by code_simp+
  have m: "\<not> free_reg ?T AnyReg [RAX] RAX" "spill_candidate ?T AnyReg RAX"
    "vars_by_location ?T (Register RAX) = Some (Var 0)" "\<not> spill_keeps_value (vars ?T ! 0)"
    "free_callee_save ?T AnyReg R12" "emitted ?T = []"
    by code_simp+
  have mf: "\<not> (\<exists>q. free_reg ?T AnyReg [RAX] q)" using m(1) by (auto simp: free_reg_def)
  have mc: "\<exists>q \<in> set [RAX]. spill_candidate ?T AnyReg q" using m(2) by simp
  have f12: "free_callee_save ?T AnyReg q \<Longrightarrow> q = R12" for q
    by (cases q)
       (simp_all add: free_callee_save_def isCalleeSave_def std_allocatable_regs_def
          spill_rewriter_def)
  from allocReg_any_policy[OF g(1,2) h(3) g(3,4)] mf mc obtain r2 v2 s2 where
    t: "r2 \<in> set [RAX]"
    "vars_by_location ?T (Register r2) = Some (Var v2)"
    "allocReg AnyReg AnyReg [RAX] ?T = Inr (r2, s2)"
    "if spill_keeps_value (vars ?T ! v2) then
        emitted s2 = emitted ?T \<and> \<not> failed s2
        \<and> vars_by_location s2 = (vars_by_location ?T)(Register r2 := None)
        \<and> locations (vars s2 ! v2) = remove1 (Register r2) (locations (vars ?T ! v2))
      else if \<exists>q. free_callee_save ?T AnyReg q then
        \<exists>new_reg. free_callee_save ?T AnyReg new_reg
          \<and> emitted s2 = emitted ?T @ [MovRR r2 new_reg] \<and> \<not> failed s2
          \<and> vars_by_location s2
              = (vars_by_location ?T)(Register new_reg \<mapsto> Var v2, Register r2 := None)
          \<and> locations (vars s2 ! v2) = [Register new_reg]
      else if \<exists>off. free_scratch_slot ?T off then
        \<exists>off. free_scratch_slot ?T off
          \<and> emitted s2
              = emitted ?T @ [MovRM r2 (Indirect RSP (getScratchRspOffset (rewrite ?T) + off))]
          \<and> \<not> failed s2
          \<and> vars_by_location s2
              = (vars_by_location ?T)(Scratch off \<mapsto> Var v2, Register r2 := None)
          \<and> locations (vars s2 ! v2) = [Scratch off]
      else s2 = ?T\<lparr>failed := True\<rparr>"
    by (simp only: if_False if_True) blast
  from t(1) have r2: "r2 = RAX" by simp
  with t(2) m(3) have v2: "v2 = 0" by simp
  have ex: "\<exists>q. free_callee_save ?T AnyReg q" using m(5) by blast
  from t(4) r2 v2 m(4) ex obtain new_reg where nr: "free_callee_save ?T AnyReg new_reg"
    "emitted s2 = emitted ?T @ [MovRR RAX new_reg]"
    "vars_by_location s2 = (vars_by_location ?T)(Register new_reg \<mapsto> Var 0, Register RAX := None)"
    "locations (vars s2 ! 0) = [Register new_reg]"
    by (simp only: if_False if_True) blast
  from f12[OF nr(1)] nr m(6) have "emitted s2 = [MovRR RAX R12]"
    "vars_by_location s2 (Register RAX) = None" "locations (vars s2 ! 0) = [Register R12]"
    by simp_all
  with t(3) r2 have d: "\<exists>st'. allocReg AnyReg AnyReg [RAX] ?T = Inr (RAX, st')
         \<and> emitted st' = [MovRR RAX R12] \<and> vars_by_location st' (Register RAX) = None
         \<and> locations (vars st' ! 0) = [Register R12]" by simp
  show ?thesis using h h3 n(5,6) a b d by blast
qed

text \<open>Where C4 as it is stated fails.  No valid register is free and the only one is
  occupied, yet none is spilled and none is returned: the occupant of RAX has no use left,
  the occupant of RDI is an entry argument at its argument location while guarding is not
  done, and \<^verbatim>\<open>assert(found)\<close> fails.\<close>

theorem allocReg_counterexample:
  "vars_by_location dead_occupant_rewriter (Register RAX) = Some (Var 0)
   \<and> \<not> free_reg dead_occupant_rewriter AnyReg [RAX] RAX
   \<and> map_sum id fst (allocReg AnyReg AnyReg [RAX] dead_occupant_rewriter) = Inl AssertFail
   \<and> vars_by_location pinned_arg_rewriter (Register RDI) = Some (Var 0)
   \<and> uses (vars pinned_arg_rewriter ! 0) ! next_use (vars pinned_arg_rewriter ! 0) = 0
   \<and> \<not> free_reg pinned_arg_rewriter AnyReg [RDI] RDI
   \<and> map_sum id fst (allocReg AnyReg AnyReg [RDI] pinned_arg_rewriter) = Inl AssertFail"
  by code_simp


subsection \<open>Guard jumps\<close>









subsection \<open>Loading a constant into a register\<close>

lemma first_register_Some: "first_register ls = Some r \<Longrightarrow> Register r \<in> set ls"
  by (induction ls rule: first_register.induct) auto

lemma first_register_None: "first_register ls = None \<Longrightarrow> Register r \<notin> set ls"
  by (induction ls rule: first_register.induct) auto

lemma findConst_loop_Some:
  "findConst_loop vs ps val = Some r \<Longrightarrow>
     \<exists>p \<in> set ps. fst p = val \<and> Register r \<in> set (locations (vs ! snd p))"
  by (induction ps) (auto split: if_splits option.splits dest: first_register_Some)

lemma findConst_loop_None:
  "findConst_loop vs ps val = None \<Longrightarrow> p \<in> set ps \<Longrightarrow> fst p = val \<Longrightarrow>
     Register r \<notin> set (locations (vs ! snd p))"
  by (induction ps) (auto split: if_splits option.splits dest: first_register_None)

lemma consistent_reg:
  "registers_consistent st \<Longrightarrow> vars_by_location st (Register r) = Some x \<Longrightarrow>
     \<exists>v. x = Var v \<and> Register r \<in> set (locations (vars st ! v))
        \<and> (is_constant (vars st ! v) \<longrightarrow> (constant_value (vars st ! v), v) \<in> set (loader_consts st))"
proof -
  assume a: "registers_consistent st" and b: "vars_by_location st (Register r) = Some x"
  have "r \<in> set all_registers" by (cases r) (simp_all add: all_registers_def)
  with a have "case vars_by_location st (Register r) of
                       None \<Rightarrow> True
                     | Some LOCATION_PLACEHOLDER \<Rightarrow> False
                     | Some (Var v) \<Rightarrow>
                         Register r \<in> set (locations (vars st ! v))
                         \<and> (\<not> is_constant (vars st ! v)
                            \<or> (constant_value (vars st ! v), v) \<in> set (loader_consts st))"
    by (simp add: registers_consistent_def list_all_iff)
  with b show ?thesis by (cases x) auto
qed

lemma consistent_table:
  "registers_consistent st \<Longrightarrow> p \<in> set (loader_consts st) \<Longrightarrow>
     is_constant (vars st ! snd p) \<and> constant_value (vars st ! snd p) = fst p
     \<and> (\<forall>l \<in> set (locations (vars st ! snd p)). vars_by_location st l = Some (Var (snd p)))"
  by (auto simp: registers_consistent_def list_all_iff)

lemma findConst_holds:
  assumes "registers_consistent st"
  shows "findConst_loop (vars st) (loader_consts st) val = Some r \<Longrightarrow> holds_constant st r val"
    and "findConst_loop (vars st) (loader_consts st) val = None \<Longrightarrow> \<not> holds_constant st r val"
proof -
  { assume "findConst_loop (vars st) (loader_consts st) val = Some r"
    then obtain p where p: "p \<in> set (loader_consts st)" "fst p = val"
        "Register r \<in> set (locations (vars st ! snd p))"
      by (blast dest: findConst_loop_Some)
    with consistent_table[OF assms p(1)] show "holds_constant st r val"
      by (auto simp: holds_constant_def) }
  { assume n: "findConst_loop (vars st) (loader_consts st) val = None"
    show "\<not> holds_constant st r val"
    proof
      assume h: "holds_constant st r val"
      then obtain v where v: "vars_by_location st (Register r) = Some (Var v)"
        "is_constant (vars st ! v)" "constant_value (vars st ! v) = val"
        by (auto simp: holds_constant_def split: option.splits var_ref.splits)
      from consistent_reg[OF assms v(1)] v
      have "(val, v) \<in> set (loader_consts st)" "Register r \<in> set (locations (vars st ! v))"
        by auto
      with findConst_loop_None[OF n, of "(val, v)" r] show False by simp
    qed }
qed

lemma tryLea_loop_Some:
  "tryLea_loop st val regs = Inr (Some (reg, off)) \<Longrightarrow>
     \<exists>c. holds_constant st reg c \<and> off = val - c \<and> \<not> isLargeConstant (val - c)"
  by (induction regs) (auto simp: holds_constant_def Let_def split: option.splits var_ref.splits if_splits)

lemma tryLea_loop_None:
  "tryLea_loop st val regs = Inr None \<Longrightarrow> reg \<in> set regs \<Longrightarrow> holds_constant st reg c \<Longrightarrow>
     isLargeConstant (val - c)"
  by (induction regs) (auto simp: holds_constant_def Let_def split: option.splits var_ref.splits if_splits)

lemma tryLea_loop_no_error:
  "registers_consistent st \<Longrightarrow> tryLea_loop st val regs \<noteq> Inl e"
  by (induction regs) (auto simp: Let_def split: option.splits var_ref.splits dest: consistent_reg)

text \<open>
  Claim C6.  In the emit phase, with consistent bookkeeping, \<^verbatim>\<open>loadConstIntoReg(val, dst)\<close>
  applies the first strategy that applies: for \<open>val = 0\<close> the zeroing idiom
  (\<^verbatim>\<open>clear_reg\<close>); else, if a register holds a constant equal to \<open>val\<close>, a move
  from such a register, left out when it is \<open>dst\<close> itself; else, if \<open>val\<close> does not fit
  signed 32 bits and a register holds a constant \<open>c\<close> with \<open>val - c\<close> fitting signed
  32 bits, \<^verbatim>\<open>lea dst, [that_reg + (val - c)]\<close>; else \<^verbatim>\<open>mov dst, imm64\<close>.
\<close>

theorem loadConstIntoReg_strategy:
  assumes "phase_emitting st" and "registers_consistent st"
  shows "(val = 0 \<longrightarrow> loadConstIntoReg val dst st = Inr (emit (ClearReg dst) st))
    \<and> (val \<noteq> 0 \<and> (\<exists>r. holds_constant st r val) \<longrightarrow>
         (\<exists>src. holds_constant st src val
            \<and> loadConstIntoReg val dst st = Inr (if src = dst then st else emit (MovRR src dst) st)))
    \<and> (val \<noteq> 0 \<and> \<not> (\<exists>r. holds_constant st r val) \<and> isLargeConstant val
         \<and> (\<exists>r c. holds_constant st r c \<and> \<not> isLargeConstant (val - c)) \<longrightarrow>
         (\<exists>r c. holds_constant st r c \<and> \<not> isLargeConstant (val - c)
            \<and> loadConstIntoReg val dst st = Inr (emit (Lea (Indirect r (sint (val - c))) dst) st)))
    \<and> (val \<noteq> 0 \<and> \<not> (\<exists>r. holds_constant st r val)
         \<and> \<not> (isLargeConstant val \<and> (\<exists>r c. holds_constant st r c \<and> \<not> isLargeConstant (val - c))) \<longrightarrow>
         loadConstIntoReg val dst st = Inr (emit (MovImm val dst) st))"
proof (intro conjI impI)
  assume "val = 0"
  with assms show "loadConstIntoReg val dst st = Inr (emit (ClearReg dst) st)"
    by (simp add: loadConstIntoReg_def)
next
  assume a: "val \<noteq> 0 \<and> (\<exists>r. holds_constant st r val)"
  then obtain src where s: "findConst_loop (vars st) (loader_consts st) val = Some src"
    using findConst_holds(2)[OF assms(2)] by (cases "findConst_loop (vars st) (loader_consts st) val") auto
  have "holds_constant st src val" using findConst_holds(1)[OF assms(2) s] .
  moreover have "loadConstIntoReg val dst st = Inr (if src = dst then st else emit (MovRR src dst) st)"
    using a s assms(1) by (simp add: loadConstIntoReg_def tryRegRegMove_def findConst_def)
  ultimately show "\<exists>src. holds_constant st src val
      \<and> loadConstIntoReg val dst st = Inr (if src = dst then st else emit (MovRR src dst) st)"
    by blast
next
  assume a: "val \<noteq> 0 \<and> \<not> (\<exists>r. holds_constant st r val) \<and> isLargeConstant val
         \<and> (\<exists>r c. holds_constant st r c \<and> \<not> isLargeConstant (val - c))"
  have n: "findConst_loop (vars st) (loader_consts st) val = None"
    using a findConst_holds(1)[OF assms(2)] by (cases "findConst_loop (vars st) (loader_consts st) val") auto
  obtain res where r: "tryLea_loop st val all_registers = Inr res"
    using tryLea_loop_no_error[OF assms(2)] by (cases "tryLea_loop st val all_registers") auto
  from a obtain r0 c0 where h: "holds_constant st r0 c0" "\<not> isLargeConstant (val - c0)" by blast
  have "r0 \<in> set all_registers" by (cases r0) (simp_all add: all_registers_def)
  with h r tryLea_loop_None[of st val all_registers r0 c0] obtain reg off where
    res: "res = Some (reg, off)" by (cases res) auto
  from tryLea_loop_Some[of st val all_registers reg off] r res obtain c where
    c: "holds_constant st reg c" "off = val - c" "\<not> isLargeConstant (val - c)" by auto
  have "loadConstIntoReg val dst st = Inr (emit (Lea (Indirect reg (sint (val - c))) dst) st)"
    using a n r res c assms(1)
    by (simp add: loadConstIntoReg_def tryRegRegMove_def findConst_def tryLea_def)
  with c show "\<exists>r c. holds_constant st r c \<and> \<not> isLargeConstant (val - c)
            \<and> loadConstIntoReg val dst st = Inr (emit (Lea (Indirect r (sint (val - c))) dst) st)"
    by blast
next
  assume a: "val \<noteq> 0 \<and> \<not> (\<exists>r. holds_constant st r val)
         \<and> \<not> (isLargeConstant val \<and> (\<exists>r c. holds_constant st r c \<and> \<not> isLargeConstant (val - c)))"
  have n: "findConst_loop (vars st) (loader_consts st) val = None"
    using a findConst_holds(1)[OF assms(2)] by (cases "findConst_loop (vars st) (loader_consts st) val") auto
  show "loadConstIntoReg val dst st = Inr (emit (MovImm val dst) st)"
  proof (cases "isLargeConstant val")
    case False
    then show ?thesis using a n assms(1)
      by (simp add: loadConstIntoReg_def tryRegRegMove_def findConst_def tryLea_def moveImmediate_def)
  next
    case True
    obtain res where r: "tryLea_loop st val all_registers = Inr res"
      using tryLea_loop_no_error[OF assms(2)] by (cases "tryLea_loop st val all_registers") auto
    have "res = None"
    proof (cases res)
      case (Some p)
      then obtain reg off where "res = Some (reg, off)" by (cases p) auto
      with tryLea_loop_Some[of st val all_registers reg off] r a True show ?thesis by auto
    qed simp
    then show ?thesis using a n r True assms(1)
      by (simp add: loadConstIntoReg_def tryRegRegMove_def findConst_def tryLea_def moveImmediate_def)
  qed
qed

lemma holds_example:
  "holds_constant rewriter_with_const r c \<longleftrightarrow> r = RAX \<and> c = 0x100000000"
  by (auto simp: holds_constant_def rewriter_with_const_def const_var_def split: option.splits var_ref.splits if_splits)

lemma large_examples:
  "isLargeConstant (0x100000000 :: 64 word)" "\<not> isLargeConstant (0x10 :: 64 word)"
  "isLargeConstant (0x200000000 :: 64 word)" "\<not> isLargeConstant (5 :: 64 word)"
  "isLargeConstant (0x100000010 :: 64 word)"
  by (simp_all add: isLargeConstant_def)

text \<open>At an input: RAX holds the constant \<open>0x100000000\<close>.\<close>

theorem loadConstIntoReg_strategy_witness:
  "phase_emitting rewriter_with_const \<and> registers_consistent rewriter_with_const
   \<and> loadConstIntoReg 0 RCX rewriter_with_const = Inr (emit (ClearReg RCX) rewriter_with_const)
   \<and> loadConstIntoReg 0x100000000 RCX rewriter_with_const
       = Inr (emit (MovRR RAX RCX) rewriter_with_const)
   \<and> loadConstIntoReg 0x100000000 RAX rewriter_with_const = Inr rewriter_with_const
   \<and> loadConstIntoReg 0x100000010 RCX rewriter_with_const
       = Inr (emit (Lea (Indirect RAX 16) RCX) rewriter_with_const)
   \<and> loadConstIntoReg 0x200000000 RCX rewriter_with_const
       = Inr (emit (MovImm 0x200000000 RCX) rewriter_with_const)
   \<and> loadConstIntoReg 5 RCX rewriter_with_const = Inr (emit (MovImm 5 RCX) rewriter_with_const)"
proof -
  have pe: "phase_emitting rewriter_with_const"
    by (simp add: rewriter_with_const_def emitting_rewriter_def initial_rewriter_def)
  have rc: "registers_consistent rewriter_with_const"
    by (simp add: registers_consistent_def rewriter_with_const_def emitting_rewriter_def
        initial_rewriter_def all_registers_def const_var_def new_var_def)
  note t = loadConstIntoReg_strategy[OF pe rc]
  have "(0x100000010 :: 64 word) - 0x100000000 = 0x10" "(0x200000000 :: 64 word) - 0x100000000 = 0x100000000"
    by simp_all
  then show ?thesis
    using pe rc t[of 0 RCX] t[of "0x100000000" RCX] t[of "0x100000000" RAX]
      t[of "0x100000010" RCX] t[of "0x200000000" RCX] t[of 5 RCX]
    by (simp add: holds_example large_examples)
qed


subsection \<open>Guards on constants\<close>

text \<open>
  Claim C9.  \<^verbatim>\<open>addGuard(val)\<close> on a variable that is a constant fails the release
  assertion when the constant differs from \<open>val\<close>; when it equals \<open>val\<close> the rewriter
  is returned unchanged: no action is enqueued, so no compare and no jump is emitted for
  the guard.
\<close>

theorem addGuard_constant:
  "is_constant (vars st ! v) \<Longrightarrow>
     addGuard v val st = (if constant_value (vars st ! v) = val then Inr st else Inl ReleaseAssertFail)"
  by (simp add: addGuard_def)


text \<open>At an input: the variable is the constant 7.\<close>

theorem addGuard_constant_witness:
  "is_constant (vars const_guard_rewriter ! 0)
   \<and> addGuard 0 7 const_guard_rewriter = Inr const_guard_rewriter
   \<and> addGuard 0 8 const_guard_rewriter = Inl ReleaseAssertFail"
proof -
  have h: "is_constant (vars const_guard_rewriter ! 0)" by code_simp
  have c: "constant_value (vars const_guard_rewriter ! 0) = 7" by code_simp
  show ?thesis
    using h addGuard_constant[OF h, of 7] addGuard_constant[OF h, of 8] by (simp add: c)
qed

subsection \<open>Increfs of the constant NULL\<close>

text \<open>
  Claim C10.  \<^verbatim>\<open>_incref(var, num_refs)\<close> on a constant of value 0 returns the rewriter
  as it is, for every positive \<open>num_refs\<close>.  So the loop of \<^verbatim>\<open>commit()\<close> over the
  consumed references of an action, when all of them are constants of value 0, leaves the
  rewriter as it is (no code is emitted before the action) or ends in a failed assertion;
  it returns when guarding is done and the hand-off test of no variable fails an
  assertion.
\<close>

theorem incref_null:
  assumes "\<forall>v \<in> set vs. is_constant (vars st ! v) \<and> constant_value (vars st ! v) = 0"
  shows "(\<forall>v \<in> set vs. \<forall>n > 0. rw_incref v n st = Inr st)
       \<and> (commit_increfs i vs st = Inr st \<or> commit_increfs i vs st = Inl AssertFail)
       \<and> (done_guarding st \<and> (\<forall>v \<in> set vs. skip_incref i (vars st ! v) \<noteq> Inl AssertFail)
            \<longrightarrow> commit_increfs i vs st = Inr st)"
proof -
  have a: "\<forall>v \<in> set vs. \<forall>n > 0. rw_incref v n st = Inr st"
    using assms by (simp add: rw_incref_def)
  have e: "skip_incref i x = Inl err \<Longrightarrow> err = AssertFail" for x err
    by (auto simp: skip_incref_def Let_def split: if_splits)
  have b: "commit_increfs i vs st = Inr st \<or> commit_increfs i vs st = Inl AssertFail"
    using a by (induction vs) (auto split: sum.splits dest: e)
  have c: "done_guarding st \<and> (\<forall>v \<in> set vs. skip_incref i (vars st ! v) \<noteq> Inl AssertFail)
            \<longrightarrow> commit_increfs i vs st = Inr st"
    using a by (induction vs) (auto split: sum.splits dest: e)
  show ?thesis using a b c by blast
qed

text \<open>At an input: an action that consumes the constant 0.\<close>

theorem incref_null_witness:
  "is_constant (vars null_const_rewriter ! 0) \<and> constant_value (vars null_const_rewriter ! 0) = 0
   \<and> rw_incref 0 1 null_const_rewriter = Inr null_const_rewriter
   \<and> rw_incref 0 2 null_const_rewriter = Inr null_const_rewriter
   \<and> commit_increfs 0 [0] null_const_rewriter = Inr null_const_rewriter"
proof -
  have h: "is_constant (vars null_const_rewriter ! 0)"
    "constant_value (vars null_const_rewriter ! 0) = 0"
    by code_simp+
  have d: "done_guarding null_const_rewriter"
    "skip_incref 0 (vars null_const_rewriter ! 0) \<noteq> Inl AssertFail"
    by code_simp+
  from h have a: "\<forall>v \<in> set [0]. is_constant (vars null_const_rewriter ! v)
      \<and> constant_value (vars null_const_rewriter ! v) = 0" by simp
  from incref_null[OF a, of 0] d h show ?thesis by simp
qed

subsection \<open>Steps of the register allocator\<close>

lemma rbind_InrD: "rbind m f = Inr y \<Longrightarrow> \<exists>x. m = Inr x \<and> f x = Inr y"
  by (cases m) (simp_all add: rbind_def)

lemma map_static_update:
  "var_static x = var_static (xs ! i) \<Longrightarrow> map var_static (xs[i := x]) = map var_static xs"
proof (cases "i < length xs")
  case True
  assume "var_static x = var_static (xs ! i)"
  with True show ?thesis by (simp add: map_update list_update_same_conv)
next
  case False
  then show ?thesis by (simp add: list_update_beyond not_less)
qed

lemma alloc_step_refl [simp]: "alloc_step st st"
  by (simp add: alloc_step_def)

lemma alloc_step_trans: "alloc_step a b \<Longrightarrow> alloc_step b c \<Longrightarrow> alloc_step a c"
  by (auto simp: alloc_step_def)

lemma alloc_step_emit: "\<not> is_incq ins \<Longrightarrow> alloc_step st (emit ins st)"
  by (simp add: alloc_step_def emit_def)

lemma alloc_step_failed [simp]: "alloc_step st (st\<lparr>failed := True\<rparr>)"
  by (simp add: alloc_step_def)

lemma addLocationToVar_step: "addLocationToVar v l st = Inr st' \<Longrightarrow> alloc_step st st'"
  by (auto simp: addLocationToVar_def alloc_step_def Let_def var_static_def map_static_update
      split: if_splits)

lemma removeLocationFromVar_step: "removeLocationFromVar v l st = Inr st' \<Longrightarrow> alloc_step st st'"
  by (auto simp: removeLocationFromVar_def alloc_step_def Let_def var_static_def map_static_update
      split: if_splits)

lemma allocScratch_step: "allocScratch st = Inr (l, st') \<Longrightarrow> alloc_step st st'"
  by (auto simp: allocScratch_def split: if_splits option.splits)

lemma spillRegister_step:
  assumes "spillRegister reg preserve st = Inr st'"
  shows "alloc_step st st'"
proof -
  from assms obtain v where v: "vars_by_location st (Register reg) = Some (Var v)"
    by (auto simp: spillRegister_def split: if_splits option.splits var_ref.splits)
  show ?thesis
  proof (cases "length (locations (vars st ! v)) > 1 \<or> is_constant (vars st ! v)
                \<or> isScratchAllocation (vars st ! v)")
    case True
    with assms v have "removeLocationFromVar v (Register reg) st = Inr st'"
      by (auto simp: spillRegister_def Let_def split: if_splits)
    then show ?thesis by (rule removeLocationFromVar_step)
  next
    case False
    let ?f = "List.find (\<lambda>new_reg. vars_by_location st (Register new_reg) = None
                                      \<and> Register new_reg \<noteq> preserve)
                           (filter isCalleeSave (allocatable_regs st))"
    show ?thesis
    proof (cases ?f)
      case (Some new_reg)
      with assms v False have "rbind (addLocationToVar v (Register new_reg) (emit (MovRR reg new_reg) st))
                      (removeLocationFromVar v (Register reg)) = Inr st'"
        by (auto simp: spillRegister_def Let_def split: if_splits)
      then obtain s1 where "addLocationToVar v (Register new_reg) (emit (MovRR reg new_reg) st) = Inr s1"
        "removeLocationFromVar v (Register reg) s1 = Inr st'" by (blast dest: rbind_InrD)
      then show ?thesis
        using alloc_step_emit[of "MovRR reg new_reg" st]
        by (auto simp: is_incq_def intro: alloc_step_trans dest!: addLocationToVar_step removeLocationFromVar_step)
    next
      case None
      with assms v False have r: "rbind (allocScratch st) (\<lambda>(scratch, st1).
                  if failed st1 then Inr st1
                  else rbind (indirectFor st1 scratch) (\<lambda>mem.
                       rbind (addLocationToVar v scratch (emit (MovRM reg mem) st1))
                             (removeLocationFromVar v (Register reg)))) = Inr st'"
        by (auto simp: spillRegister_def Let_def split: if_splits)
      then obtain scratch s1 where a: "allocScratch st = Inr (scratch, s1)"
        and b: "(if failed s1 then Inr s1
                  else rbind (indirectFor s1 scratch) (\<lambda>mem.
                       rbind (addLocationToVar v scratch (emit (MovRM reg mem) s1))
                             (removeLocationFromVar v (Register reg)))) = Inr st'"
        by (auto dest!: rbind_InrD)
      note s = allocScratch_step[OF a]
      show ?thesis
      proof (cases "failed s1")
        case True
        with b s show ?thesis by simp
      next
        case False
        with b obtain mem s2 where
          "addLocationToVar v scratch (emit (MovRM reg mem) s1) = Inr s2"
          "removeLocationFromVar v (Register reg) s2 = Inr st'"
          by (auto dest!: rbind_InrD)
        then show ?thesis
          using s alloc_step_emit[of "MovRM reg mem" s1]
          by (auto simp: is_incq_def intro: alloc_step_trans dest!: addLocationToVar_step removeLocationFromVar_step)
      qed
    qed
  qed
qed

lemma allocReg_step:
  assumes "allocReg dest otherThan valid st = Inr (r, st')"
  shows "alloc_step st st'"
proof (cases dest)
  case AnyReg
  with assms obtain res where "allocReg_scan st otherThan valid (- 1) False RAX = Inr res"
    and c: "(case res of
              FreeReg reg \<Rightarrow> Inr (reg, st)
            | Best best found best_reg \<Rightarrow>
                if \<not> found then Inl AssertFail
                else rbind (spillRegister best_reg otherThan st) (\<lambda>st'.
                  if \<not> (failed st' \<or> vars_by_location st' (Register best_reg) = None)
                  then Inl AssertFail else Inr (best_reg, st'))) = Inr (r, st')"
    by (auto simp: allocReg_def split: if_splits dest!: rbind_InrD)
  show ?thesis
  proof (cases res)
    case (FreeReg x)
    with c show ?thesis by simp
  next
    case (Best b f br)
    with c obtain s1 where "spillRegister br otherThan st = Inr s1" "s1 = st'"
      by (auto split: if_splits dest!: rbind_InrD)
    then show ?thesis by (auto dest: spillRegister_step)
  qed
next
  case (Register reg)
  with assms obtain s1 where
    "(if vars_by_location st (Register reg) \<noteq> None
                      then spillRegister reg otherThan st else Inr st) = Inr s1" "s1 = st'"
    by (auto simp: allocReg_def split: if_splits dest!: rbind_InrD)
  then show ?thesis by (auto split: if_splits dest: spillRegister_step)
qed (use assms in \<open>auto simp: allocReg_def split: if_splits\<close>)

lemma loadConstIntoReg_step:
  assumes "loadConstIntoReg val dst st = Inr st'"
  shows "alloc_step st st'"
proof -
  have e: "alloc_step st (emit ins st)" if "\<not> is_incq ins" for ins
    using that by (rule alloc_step_emit)
  show ?thesis
    using assms e[of "ClearReg dst"] e[of "MovImm val dst"]
    by (auto simp: loadConstIntoReg_def tryRegRegMove_def findConst_def tryLea_def moveImmediate_def
        is_incq_def
        split: if_splits option.splits prod.splits dest!: rbind_InrD intro!: alloc_step_emit)
qed

lemma add_after_emit:
  "addLocationToVar v l (emit ins s1) = Inr s2 \<Longrightarrow> \<not> is_incq ins \<Longrightarrow> alloc_step st s1 \<Longrightarrow>
     alloc_step st s2"
  by (blast intro: alloc_step_trans alloc_step_emit addLocationToVar_step)

lemma getInReg_step:
  assumes "getInReg v dest allow ot st = Inr (r, st')"
  shows "alloc_step st st'"
proof -
  let ?var = "vars st ! v"
  let ?A = "allocReg dest ot (allocatable_regs st) st"
  from assms have ok: "preserve_ok dest"
    by (auto simp: getInReg_def Let_def split: if_splits)
  consider (const) "locations ?var = []" "is_constant ?var"
    | (scratch) "locations ?var = []" "\<not> is_constant ?var" "isScratchAllocation ?var"
    | (none) "locations ?var = []" "\<not> is_constant ?var" "\<not> isScratchAllocation ?var"
    | (inplace) "locations ?var \<noteq> []" "dest \<in> set (locations ?var)"
    | (other) reg where "locations ?var \<noteq> []" "dest \<notin> set (locations ?var)"
        "first_register (locations ?var) = Some reg"
    | (mem) "locations ?var \<noteq> []" "dest \<notin> set (locations ?var)"
        "first_register (locations ?var) = None"
    by (cases "first_register (locations ?var)") auto
  then show ?thesis
  proof cases
    case const
    with assms have "rbind ?A (\<lambda>(reg, st1).
        rbind (loadConstIntoReg (constant_value ?var) reg st1) (\<lambda>st2.
        rbind (addLocationToVar v (Register reg) st2) (\<lambda>st3. Inr (reg, st3)))) = Inr (r, st')"
      by (auto simp: getInReg_def Let_def split: if_splits)
    then obtain reg s1 s2 where "?A = Inr (reg, s1)"
      "loadConstIntoReg (constant_value ?var) reg s1 = Inr s2"
      "addLocationToVar v (Register reg) s2 = Inr st'"
      by (auto dest!: rbind_InrD)
    then show ?thesis
      by (blast intro: alloc_step_trans dest: allocReg_step loadConstIntoReg_step addLocationToVar_step)
  next
    case scratch
    with assms have "rbind ?A (\<lambda>(reg, st1).
        rbind (getScratchLocation ?var 0) (\<lambda>l.
        rbind (indirectFor st1 l) (\<lambda>addr.
        rbind (addLocationToVar v (Register reg) (emit (Lea addr reg) st1)) (\<lambda>st3.
          Inr (reg, st3))))) = Inr (r, st')"
      by (auto simp: getInReg_def Let_def split: if_splits)
    then obtain reg s1 addr where "?A = Inr (reg, s1)"
      "addLocationToVar v (Register reg) (emit (Lea addr reg) s1) = Inr st'"
      by (auto dest!: rbind_InrD)
    then show ?thesis
      using add_after_emit[of v "Register reg" "Lea addr reg" s1 st' st]
      by (auto simp: is_incq_def dest: allocReg_step)
  next
    case none
    with assms show ?thesis by (auto simp: getInReg_def Let_def split: if_splits)
  next
    case inplace
    with assms show ?thesis
      by (auto simp: getInReg_def Let_def split: if_splits location.splits)
  next
    case other
    show ?thesis
    proof (cases dest)
      case (Register dest_reg)
      with other assms have "rbind ?A (\<lambda>(r0, st1).
                 rbind (addLocationToVar v (Register dest_reg) (emit (MovRR reg dest_reg) st1))
                   (\<lambda>st2. Inr (dest_reg, st2))) = Inr (r, st')"
        by (auto simp: getInReg_def Let_def split: if_splits)
      then obtain r0 s1 where "?A = Inr (r0, s1)"
        "addLocationToVar v (Register dest_reg) (emit (MovRR reg dest_reg) s1) = Inr st'"
        by (auto dest!: rbind_InrD)
      then show ?thesis
        using add_after_emit[of v "Register dest_reg" "MovRR reg dest_reg" s1 st' st]
        by (auto simp: is_incq_def dest: allocReg_step)
    next
      case AnyReg
      with other assms show ?thesis
        by (auto simp: getInReg_def Let_def split: if_splits)
    qed (use ok in \<open>simp_all add: preserve_ok_def\<close>)
  next
    case mem
    with assms have "rbind ?A (\<lambda>(reg, st1).
                if failed st1 then Inr (reg, st1)
                else if vars_by_location st1 (Register reg) \<noteq> None then Inl AssertFail
                else if stack_or_scratch (hd (locations ?var)) then
                  rbind (indirectFor st1 (hd (locations ?var))) (\<lambda>mem.
                  rbind (addLocationToVar v (Register reg) (emit (MovMR mem reg) st1)) (\<lambda>st2.
                    Inr (reg, st2)))
                else Inl AbortCalled) = Inr (r, st')"
      by (auto simp: getInReg_def Let_def split: if_splits)
    then obtain reg s1 where a: "?A = Inr (reg, s1)" and
      b0: "(if failed s1 then Inr (reg, s1)
                else if vars_by_location s1 (Register reg) \<noteq> None then Inl AssertFail
                else if stack_or_scratch (hd (locations ?var)) then
                  rbind (indirectFor s1 (hd (locations ?var))) (\<lambda>mem.
                  rbind (addLocationToVar v (Register reg) (emit (MovMR mem reg) s1)) (\<lambda>st2.
                    Inr (reg, st2)))
                else Inl AbortCalled) = Inr (r, st')"
      by (auto dest!: rbind_InrD)
    have b: "failed s1 \<and> st' = s1 \<or>
          (\<exists>m. addLocationToVar v (Register reg) (emit (MovMR m reg) s1) = Inr st')"
    proof (cases "failed s1")
      case True
      with b0 show ?thesis by simp
    next
      case False
      with b0 have "rbind (indirectFor s1 (hd (locations ?var))) (\<lambda>mem.
                  rbind (addLocationToVar v (Register reg) (emit (MovMR mem reg) s1)) (\<lambda>st2.
                    Inr (reg, st2))) = Inr (r, st')"
        by (auto split: if_splits)
      then show ?thesis by (auto dest!: rbind_InrD)
    qed
    from b show ?thesis
    proof
      assume "failed s1 \<and> st' = s1"
      with a show ?thesis by (auto dest: allocReg_step)
    next
      assume "\<exists>m. addLocationToVar v (Register reg) (emit (MovMR m reg) s1) = Inr st'"
      then obtain m where "addLocationToVar v (Register reg) (emit (MovMR m reg) s1) = Inr st'" ..
      then show ?thesis
        using a add_after_emit[of v "Register reg" "MovMR m reg" s1 st' st]
        by (auto simp: is_incq_def dest: allocReg_step)
    qed
  qed
qed

lemma funpow_emit_emitted:
  "emitted ((emit ins ^^ n) st) = emitted st @ replicate n ins"
  by (induction n) (simp_all add: emit_def replicate_append_same)

lemma funpow_emit_fields:
  "vars ((emit ins ^^ n) st) = vars st" "done_guarding ((emit ins ^^ n) st) = done_guarding st"
  "layout ((emit ins ^^ n) st) = layout st"
  by (induction n) (simp_all add: emit_def)

text \<open>One incref of a variable\<close>

lemma rw_incref_one:
  assumes "rw_incref v 1 st = Inr st'"
  shows "\<exists>code. emitted st' = emitted st @ code
      \<and> length (filter is_incq code)
           = (if is_constant (vars st ! v) \<and> constant_value (vars st ! v) = 0 then 0 else 1)"
    and "map var_static (vars st') = map var_static (vars st)"
    and "done_guarding st' = done_guarding st"
proof -
  let ?var = "vars st ! v"
  consider (null) "is_constant ?var \<and> constant_value ?var = 0"
    | (small) "\<not> (is_constant ?var \<and> constant_value ?var = 0)"
        "is_constant ?var \<and> \<not> isLargeConstant (constant_value ?var)"
    | (reg) "\<not> (is_constant ?var \<and> constant_value ?var = 0)"
        "\<not> (is_constant ?var \<and> \<not> isLargeConstant (constant_value ?var))"
    by blast
  then have "(\<exists>code. emitted st' = emitted st @ code
      \<and> length (filter is_incq code)
           = (if is_constant (vars st ! v) \<and> constant_value (vars st ! v) = 0 then 0 else 1))
    \<and> map var_static (vars st') = map var_static (vars st)
    \<and> done_guarding st' = done_guarding st"
  proof cases
    case null
    with assms show ?thesis by (auto simp: rw_incref_def Let_def split: if_splits)
  next
    case small
    have "nat (1::int) = Suc 0" by simp
    with small assms have "st' = emit (IncqImm (constant_value ?var + word_of_int (ob_refcnt_offset (layout st)))) st"
      by (auto simp: rw_incref_def Let_def split: if_splits)
    with small show ?thesis by (auto simp: emit_def is_incq_def)
  next
    case reg
    with assms obtain r s1 where g: "getInReg v AnyReg False AnyReg st = Inr (r, s1)"
      and e: "st' = emit (IncqMem (Indirect r (ob_refcnt_offset (layout st)))) s1"
      by (auto simp: rw_incref_def Let_def split: if_splits dest!: rbind_InrD)
    from getInReg_step[OF g] obtain code where
      "emitted s1 = emitted st @ code" "filter is_incq code = []"
      "map var_static (vars s1) = map var_static (vars st)" "done_guarding s1 = done_guarding st"
      by (auto simp: alloc_step_def)
    with e reg show ?thesis by (auto simp: emit_def is_incq_def)
  qed
  then show "\<exists>code. emitted st' = emitted st @ code
      \<and> length (filter is_incq code)
           = (if is_constant (vars st ! v) \<and> constant_value (vars st ! v) = 0 then 0 else 1)"
    and "map var_static (vars st') = map var_static (vars st)"
    and "done_guarding st' = done_guarding st"
    by blast+
qed

lemma static_nth:
  "map var_static xs = map var_static ys \<Longrightarrow> v < length ys \<Longrightarrow> var_static (xs ! v) = var_static (ys ! v)"
  by (metis length_map nth_map)

lemma skip_incref_static:
  "var_static x = var_static y \<Longrightarrow> skip_incref i x = skip_incref i y"
  by (simp add: skip_incref_def refHandedOff_def var_static_def)

lemma incref_due_static:
  "var_static x = var_static y \<Longrightarrow> incref_due i x = incref_due i y"
  by (simp add: incref_due_def handoff_at_def var_static_def)

lemma skip_incref_handoff:
  "skip_incref i var = Inr b \<Longrightarrow> b = handoff_at i var"
  by (auto simp: skip_incref_def handoff_at_def refHandedOff_def Let_def split: if_splits)

lemma commit_increfs_count:
  assumes "\<forall>v \<in> set crefs. v < length (vars st)" and "commit_increfs i crefs st = Inr st'"
  shows "\<exists>code. emitted st' = emitted st @ code
     \<and> length (filter is_incq code) = length (filter (\<lambda>v. incref_due i (vars st ! v)) crefs)"
  using assms
proof (induction crefs arbitrary: st)
  case Nil
  then show ?case by simp
next
  case (Cons v vs)
  from Cons.prems(2) obtain b where b: "skip_incref i (vars st ! v) = Inr b"
    by (auto split: sum.splits)
  note hb = skip_incref_handoff[OF b]
  show ?case
  proof (cases b)
    case True
    with b Cons.prems have r: "commit_increfs i vs st = Inr st'" by simp
    from Cons.IH[OF _ r] Cons.prems(1) obtain code where
      "emitted st' = emitted st @ code"
      "length (filter is_incq code) = length (filter (\<lambda>v. incref_due i (vars st ! v)) vs)"
      by auto
    with True hb show ?thesis by (auto simp: incref_due_def)
  next
    case False
    with b Cons.prems(2) obtain s1 where s1: "rw_incref v 1 st = Inr s1"
      and r: "commit_increfs i vs s1 = Inr st'"
      by (auto split: if_splits sum.splits)
    from rw_incref_one[OF s1] obtain c1 where c1: "emitted s1 = emitted st @ c1"
      "length (filter is_incq c1)
           = (if is_constant (vars st ! v) \<and> constant_value (vars st ! v) = 0 then 0 else 1)"
      and st: "map var_static (vars s1) = map var_static (vars st)"
      by blast
    from st have len: "length (vars s1) = length (vars st)" by (metis length_map)
    with Cons.prems(1) have wf: "\<forall>v \<in> set vs. v < length (vars s1)" by simp
    from Cons.IH[OF wf r] obtain c2 where c2: "emitted st' = emitted s1 @ c2"
      "length (filter is_incq c2) = length (filter (\<lambda>v. incref_due i (vars s1 ! v)) vs)"
      by blast
    have same: "filter (\<lambda>v. incref_due i (vars s1 ! v)) vs = filter (\<lambda>v. incref_due i (vars st ! v)) vs"
    proof (rule filter_cong[OF refl])
      fix w assume "w \<in> set vs"
      with Cons.prems(1) have "w < length (vars st)" by simp
      from incref_due_static[OF static_nth[OF st this]]
      show "incref_due i (vars s1 ! w) = incref_due i (vars st ! w)" .
    qed
    have "emitted st' = emitted st @ (c1 @ c2)" using c1 c2 by simp
    moreover have "length (filter is_incq (c1 @ c2))
        = length (filter (\<lambda>v. incref_due i (vars st ! v)) (v # vs))"
      using c1(2) c2(2) same False hb by (auto simp: incref_due_def)
    ultimately show ?thesis by blast
  qed
qed

subsection \<open>Increfs before an action\<close>

lemma commit_increfs_append:
  "commit_increfs i (xs @ ys) st = Inr st' \<Longrightarrow>
     \<exists>sm. commit_increfs i xs st = Inr sm \<and> commit_increfs i ys sm = Inr st'"
proof (induction xs arbitrary: st)
  case Nil
  then show ?case by simp
next
  case (Cons x xs)
  from Cons.prems obtain b where b: "skip_incref i (vars st ! x) = Inr b"
    by (auto split: sum.splits)
  show ?case
  proof (cases b)
    case True
    with b Cons.prems have "commit_increfs i (xs @ ys) st = Inr st'" by simp
    from Cons.IH[OF this] b True show ?thesis by simp
  next
    case False
    with b Cons.prems obtain s1 where s1: "rw_incref x 1 st = Inr s1" "done_guarding st"
      and r: "commit_increfs i (xs @ ys) s1 = Inr st'"
      by (auto split: if_splits sum.splits)
    from Cons.IH[OF r] b False s1 show ?thesis by simp
  qed
qed

lemma commit_increfs_static:
  "commit_increfs i crefs st = Inr st' \<Longrightarrow> map var_static (vars st') = map var_static (vars st)"
proof (induction crefs arbitrary: st)
  case Nil
  then show ?case by simp
next
  case (Cons x xs)
  from Cons.prems obtain b where b: "skip_incref i (vars st ! x) = Inr b"
    by (auto split: sum.splits)
  show ?case
  proof (cases b)
    case True
    with b Cons.prems Cons.IH show ?thesis by simp
  next
    case False
    with b Cons.prems obtain s1 where s1: "rw_incref x 1 st = Inr s1"
      and r: "commit_increfs i xs s1 = Inr st'"
      by (auto split: if_splits sum.splits)
    from Cons.IH[OF r] rw_incref_one(2)[OF s1] show ?thesis by simp
  qed
qed

lemma alloc_step_length: "alloc_step st st' \<Longrightarrow> length (vars st') = length (vars st)"
  by (metis alloc_step_def length_map)

lemma addLocationToVar_located:
  "addLocationToVar v l s = Inr s' \<Longrightarrow> v < length (vars s) \<Longrightarrow>
     failed s' \<or> l \<in> set (locations (vars s' ! v))"
  by (auto simp: addLocationToVar_def Let_def split: if_splits)

lemma emit_fields [simp]:
  "vars (emit ins s) = vars s" "failed (emit ins s) = failed s" "layout (emit ins s) = layout s"
  "emitted (emit ins s) = emitted s @ [ins]"
  by (simp_all add: emit_def)

lemma getInReg_located:
  assumes "getInReg v AnyReg allow AnyReg st = Inr (r, st')" and v: "v < length (vars st)"
  shows "failed st' \<or> Register r \<in> set (locations (vars st' ! v))"
proof -
  let ?var = "vars st ! v"
  let ?A = "allocReg AnyReg AnyReg (allocatable_regs st) st"
  have len: "?A = Inr (reg, s1) \<Longrightarrow> v < length (vars s1)" for reg s1
    using v by (auto dest!: allocReg_step alloc_step_length)
  consider (const) "locations ?var = []" "is_constant ?var"
    | (scratch) "locations ?var = []" "\<not> is_constant ?var" "isScratchAllocation ?var"
    | (none) "locations ?var = []" "\<not> is_constant ?var" "\<not> isScratchAllocation ?var"
    | (inplace) "locations ?var \<noteq> []" "AnyReg \<in> set (locations ?var)"
    | (other) reg where "locations ?var \<noteq> []" "AnyReg \<notin> set (locations ?var)"
        "first_register (locations ?var) = Some reg"
    | (mem) "locations ?var \<noteq> []" "AnyReg \<notin> set (locations ?var)"
        "first_register (locations ?var) = None"
    by (cases "first_register (locations ?var)") auto
  then show ?thesis
  proof cases
    case const
    with assms have "rbind ?A (\<lambda>(reg, st1).
        rbind (loadConstIntoReg (constant_value ?var) reg st1) (\<lambda>st2.
        rbind (addLocationToVar v (Register reg) st2) (\<lambda>st3. Inr (reg, st3)))) = Inr (r, st')"
      by (auto simp: getInReg_def Let_def split: if_splits)
    then obtain s1 s2 where a: "?A = Inr (r, s1)"
      "loadConstIntoReg (constant_value ?var) r s1 = Inr s2"
      "addLocationToVar v (Register r) s2 = Inr st'"
      by (auto dest!: rbind_InrD)
    from len[OF a(1)] a(2) have "v < length (vars s2)"
      by (auto dest!: loadConstIntoReg_step alloc_step_length)
    with a(3) show ?thesis by (rule addLocationToVar_located)
  next
    case scratch
    with assms have "rbind ?A (\<lambda>(reg, st1).
        rbind (getScratchLocation ?var 0) (\<lambda>l.
        rbind (indirectFor st1 l) (\<lambda>addr.
        rbind (addLocationToVar v (Register reg) (emit (Lea addr reg) st1)) (\<lambda>st3.
          Inr (reg, st3))))) = Inr (r, st')"
      by (auto simp: getInReg_def Let_def split: if_splits)
    then obtain s1 addr where a: "?A = Inr (r, s1)"
      "addLocationToVar v (Register r) (emit (Lea addr r) s1) = Inr st'"
      by (auto dest!: rbind_InrD)
    from len[OF a(1)] have "v < length (vars (emit (Lea addr r) s1))" by simp
    with a(2) show ?thesis by (rule addLocationToVar_located)
  next
    case none
    with assms show ?thesis by (auto simp: getInReg_def Let_def split: if_splits)
  next
    case inplace
    with assms show ?thesis
      by (auto simp: getInReg_def Let_def preserve_ok_def split: if_splits)
  next
    case other
    with assms have "r = reg" "st' = st"
      by (auto simp: getInReg_def Let_def preserve_ok_def split: if_splits)
    with other(3) show ?thesis by (auto dest: first_register_Some)
  next
    case mem
    with assms have "rbind ?A (\<lambda>(reg, st1).
                if failed st1 then Inr (reg, st1)
                else if vars_by_location st1 (Register reg) \<noteq> None then Inl AssertFail
                else if stack_or_scratch (hd (locations ?var)) then
                  rbind (indirectFor st1 (hd (locations ?var))) (\<lambda>mem.
                  rbind (addLocationToVar v (Register reg) (emit (MovMR mem reg) st1)) (\<lambda>st2.
                    Inr (reg, st2)))
                else Inl AbortCalled) = Inr (r, st')"
      by (auto simp: getInReg_def Let_def split: if_splits)
    then obtain reg s1 where a: "?A = Inr (reg, s1)" and
      b0: "(if failed s1 then Inr (reg, s1)
                else if vars_by_location s1 (Register reg) \<noteq> None then Inl AssertFail
                else if stack_or_scratch (hd (locations ?var)) then
                  rbind (indirectFor s1 (hd (locations ?var))) (\<lambda>mem.
                  rbind (addLocationToVar v (Register reg) (emit (MovMR mem reg) s1)) (\<lambda>st2.
                    Inr (reg, st2)))
                else Inl AbortCalled) = Inr (r, st')"
      by (auto dest!: rbind_InrD)
    show ?thesis
    proof (cases "failed s1")
      case True
      with b0 show ?thesis by simp
    next
      case False
      with b0 have "rbind (indirectFor s1 (hd (locations ?var))) (\<lambda>mem.
                  rbind (addLocationToVar v (Register reg) (emit (MovMR mem reg) s1)) (\<lambda>st2.
                    Inr (reg, st2))) = Inr (r, st')"
        by (auto split: if_splits)
      then obtain m where m: "addLocationToVar v (Register r) (emit (MovMR m r) s1) = Inr st'"
        "reg = r"
        by (auto dest!: rbind_InrD)
      from len[OF a] have "v < length (vars (emit (MovMR m r) s1))" by simp
      with m(1) show ?thesis by (rule addLocationToVar_located)
    qed
  qed
qed

lemma commit_increfs_one:
  assumes c: "commit_increfs i [y] sb = Inr sa" and y: "y < length (vars sb)"
  shows "if \<not> incref_due i (vars sb ! y) then sa = sb
         else if is_constant (vars sb ! y) \<and> \<not> isLargeConstant (constant_value (vars sb ! y)) then
           sa = emit (IncqImm (constant_value (vars sb ! y)
                                 + word_of_int (ob_refcnt_offset (layout sb)))) sb
         else
           \<exists>reg sg code. getInReg y AnyReg False AnyReg sb = Inr (reg, sg)
              \<and> emitted sg = emitted sb @ code \<and> filter is_incq code = []
              \<and> (failed sg \<or> Register reg \<in> set (locations (vars sg ! y)))
              \<and> sa = emit (IncqMem (Indirect reg (ob_refcnt_offset (layout sb)))) sg"
proof -
  let ?var = "vars sb ! y"
  from c obtain b where b: "skip_incref i ?var = Inr b" by (auto split: sum.splits)
  then have bh: "b = handoff_at i ?var" by (rule skip_incref_handoff)
  show ?thesis
  proof (cases b)
    case True
    with b c bh show ?thesis by (simp add: incref_due_def)
  next
    case False
    with b c have r: "rw_incref y 1 sb = Inr sa" by (auto split: if_splits sum.splits)
    consider (null) "is_constant ?var \<and> constant_value ?var = 0"
      | (small) "\<not> (is_constant ?var \<and> constant_value ?var = 0)"
          "is_constant ?var \<and> \<not> isLargeConstant (constant_value ?var)"
      | (reg) "\<not> (is_constant ?var \<and> constant_value ?var = 0)"
          "\<not> (is_constant ?var \<and> \<not> isLargeConstant (constant_value ?var))"
      by blast
    then show ?thesis
    proof cases
      case null
      with r show ?thesis by (auto simp: rw_incref_def Let_def incref_due_def split: if_splits)
    next
      case small
      have "nat (1::int) = Suc 0" by simp
      with small r have "sa = emit (IncqImm (constant_value ?var
                                 + word_of_int (ob_refcnt_offset (layout sb)))) sb"
        by (auto simp: rw_incref_def Let_def split: if_splits)
      with small False bh show ?thesis by (simp add: incref_due_def)
    next
      case reg
      with r obtain rg sg where g: "getInReg y AnyReg False AnyReg sb = Inr (rg, sg)"
        and e: "sa = emit (IncqMem (Indirect rg (ob_refcnt_offset (layout sb)))) sg"
        by (auto simp: rw_incref_def Let_def split: if_splits dest!: rbind_InrD)
      from getInReg_step[OF g] obtain code where
        cd: "emitted sg = emitted sb @ code" "filter is_incq code = []"
        by (auto simp: alloc_step_def)
      note getInReg_located[OF g y]
      with g e cd reg False bh show ?thesis by (auto simp: incref_due_def)
    qed
  qed
qed

lemma rw_incref_layout:
  assumes "rw_incref v 1 st = Inr st'"
  shows "layout st' = layout st"
proof -
  let ?var = "vars st ! v"
  consider (null) "is_constant ?var \<and> constant_value ?var = 0"
    | (small) "\<not> (is_constant ?var \<and> constant_value ?var = 0)"
        "is_constant ?var \<and> \<not> isLargeConstant (constant_value ?var)"
    | (reg) "\<not> (is_constant ?var \<and> constant_value ?var = 0)"
        "\<not> (is_constant ?var \<and> \<not> isLargeConstant (constant_value ?var))"
    by blast
  then show ?thesis
  proof cases
    case null
    with assms show ?thesis by (auto simp: rw_incref_def Let_def split: if_splits)
  next
    case small
    with assms show ?thesis
      by (auto simp: rw_incref_def Let_def funpow_emit_fields split: if_splits)
  next
    case reg
    with assms obtain rg sg where g: "getInReg v AnyReg False AnyReg st = Inr (rg, sg)"
      and e: "st' = emit (IncqMem (Indirect rg (ob_refcnt_offset (layout st)))) sg"
      by (auto simp: rw_incref_def Let_def split: if_splits dest!: rbind_InrD)
    from getInReg_step[OF g] e show ?thesis by (simp add: alloc_step_def)
  qed
qed

lemma commit_increfs_layout:
  "commit_increfs i crefs st = Inr st' \<Longrightarrow> layout st' = layout st"
proof (induction crefs arbitrary: st)
  case Nil
  then show ?case by simp
next
  case (Cons x xs)
  from Cons.prems obtain b where b: "skip_incref i (vars st ! x) = Inr b"
    by (auto split: sum.splits)
  show ?case
  proof (cases b)
    case True
    with b Cons.prems Cons.IH show ?thesis by simp
  next
    case False
    with b Cons.prems obtain s1 where s1: "rw_incref x 1 st = Inr s1"
      and r: "commit_increfs i xs s1 = Inr st'"
      by (auto split: if_splits sum.splits)
    from Cons.IH[OF r] rw_incref_layout[OF s1] show ?thesis by simp
  qed
qed

lemma commit_increfs_each_var:
  assumes wf: "\<forall>v \<in> set (xs @ y # ys). v < length (vars st)"
    and c: "commit_increfs i (xs @ y # ys) st = Inr st'"
  shows "\<exists>sb sa. commit_increfs i xs st = Inr sb \<and> commit_increfs i [y] sb = Inr sa
     \<and> commit_increfs i ys sa = Inr st'
     \<and> (if \<not> incref_due i (vars st ! y) then sa = sb
        else if is_constant (vars st ! y) \<and> \<not> isLargeConstant (constant_value (vars st ! y)) then
          sa = emit (IncqImm (constant_value (vars st ! y)
                                + word_of_int (ob_refcnt_offset (layout st)))) sb
        else
          \<exists>reg sg code. getInReg y AnyReg False AnyReg sb = Inr (reg, sg)
             \<and> emitted sg = emitted sb @ code \<and> filter is_incq code = []
             \<and> (failed sg \<or> Register reg \<in> set (locations (vars sg ! y)))
             \<and> sa = emit (IncqMem (Indirect reg (ob_refcnt_offset (layout st)))) sg)"
proof -
  from commit_increfs_append[OF c] obtain sb where
    sb: "commit_increfs i xs st = Inr sb" "commit_increfs i (y # ys) sb = Inr st'" by blast
  from commit_increfs_append[of i "[y]" ys sb st'] sb(2) obtain sa where
    sa: "commit_increfs i [y] sb = Inr sa" "commit_increfs i ys sa = Inr st'" by auto
  note st = commit_increfs_static[OF sb(1)]
  then have len: "length (vars sb) = length (vars st)" by (metis length_map)
  from wf have y: "y < length (vars st)" by simp
  with len have yb: "y < length (vars sb)" by simp
  have vs: "var_static (vars sb ! y) = var_static (vars st ! y)"
    by (rule static_nth[OF st y])
  then have f: "is_constant (vars sb ! y) = is_constant (vars st ! y)"
    "constant_value (vars sb ! y) = constant_value (vars st ! y)"
    by (simp_all add: var_static_def)
  have d: "incref_due i (vars sb ! y) = incref_due i (vars st ! y)"
    by (rule incref_due_static[OF vs])
  have l: "layout sb = layout st" by (rule commit_increfs_layout[OF sb(1)])
  from commit_increfs_one[OF sa(1) yb] f d l sb(1) sa show ?thesis by auto
qed

text \<open>
  Claim C1, as the code has it.  In the emit loop of \<^verbatim>\<open>commit()\<close>, when the loop gets
  past the action with index \<open>i\<close>, the variables of its \<open>consumed_refs\<close> have been
  visited in order before the action was executed, and the action was executed on the
  rewriter they left.  For a variable \<open>y\<close> of the list no incref is due when the action
  is its hand-off point, and also when \<open>y\<close> is a constant of value 0: then the rewriter
  is left as it is.  Otherwise exactly one incref of \<open>y\<close> is emitted: for a constant that
  is not large, \<^verbatim>\<open>incq\<close> on the address of its reference count; for any other
  variable, \<open>y\<close> is brought into a register by \<^verbatim>\<open>getInReg\<close>, with code that holds no
  incref, and \<^verbatim>\<open>incq\<close> on the reference count at that register follows; the register
  is a location of \<open>y\<close> unless the rewrite has failed.  So the code emitted before the
  action holds as many increfs as the list has entries for which one is due.
\<close>

theorem commit_increfs_before_action:
  assumes "\<forall>v \<in> set (consumed_refs a). v < length (vars st)"
    and "commit_loop exec i (a # rest) st = Inr res"
  shows "\<exists>st1 st2. commit_increfs i (consumed_refs a) st = Inr st1
     \<and> exec (action a) (st1\<lparr>current_action_idx := int i\<rparr>) = Inr st2
     \<and> (\<forall>xs y ys. consumed_refs a = xs @ y # ys \<longrightarrow>
          (\<exists>sb sa. commit_increfs i xs st = Inr sb \<and> commit_increfs i [y] sb = Inr sa
             \<and> commit_increfs i ys sa = Inr st1
             \<and> (if \<not> incref_due i (vars st ! y) then sa = sb
                else if is_constant (vars st ! y)
                        \<and> \<not> isLargeConstant (constant_value (vars st ! y)) then
                  sa = emit (IncqImm (constant_value (vars st ! y)
                                        + word_of_int (ob_refcnt_offset (layout st)))) sb
                else
                  \<exists>reg sg code. getInReg y AnyReg False AnyReg sb = Inr (reg, sg)
                     \<and> emitted sg = emitted sb @ code \<and> filter is_incq code = []
                     \<and> (failed sg \<or> Register reg \<in> set (locations (vars sg ! y)))
                     \<and> sa = emit (IncqMem (Indirect reg (ob_refcnt_offset (layout st)))) sg)))
     \<and> (\<exists>code. emitted st1 = emitted st @ code
           \<and> length (filter is_incq code)
               = length (filter (\<lambda>v. incref_due i (vars st ! v)) (consumed_refs a)))"
proof -
  from assms(2) obtain st1 st2 where s: "commit_increfs i (consumed_refs a) st = Inr st1"
    "exec (action a) (st1\<lparr>current_action_idx := int i\<rparr>) = Inr st2"
    by (auto split: sum.splits)
  have each: "\<forall>xs y ys. consumed_refs a = xs @ y # ys \<longrightarrow>
          (\<exists>sb sa. commit_increfs i xs st = Inr sb \<and> commit_increfs i [y] sb = Inr sa
             \<and> commit_increfs i ys sa = Inr st1
             \<and> (if \<not> incref_due i (vars st ! y) then sa = sb
                else if is_constant (vars st ! y)
                        \<and> \<not> isLargeConstant (constant_value (vars st ! y)) then
                  sa = emit (IncqImm (constant_value (vars st ! y)
                                        + word_of_int (ob_refcnt_offset (layout st)))) sb
                else
                  \<exists>reg sg code. getInReg y AnyReg False AnyReg sb = Inr (reg, sg)
                     \<and> emitted sg = emitted sb @ code \<and> filter is_incq code = []
                     \<and> (failed sg \<or> Register reg \<in> set (locations (vars sg ! y)))
                     \<and> sa = emit (IncqMem (Indirect reg (ob_refcnt_offset (layout st)))) sg))"
  proof (intro allI impI)
    fix xs y ys
    assume e: "consumed_refs a = xs @ y # ys"
    with assms(1) s(1) have "\<forall>v \<in> set (xs @ y # ys). v < length (vars st)"
      "commit_increfs i (xs @ y # ys) st = Inr st1" by simp_all
    from commit_increfs_each_var[OF this]
    show "\<exists>sb sa. commit_increfs i xs st = Inr sb \<and> commit_increfs i [y] sb = Inr sa
             \<and> commit_increfs i ys sa = Inr st1
             \<and> (if \<not> incref_due i (vars st ! y) then sa = sb
                else if is_constant (vars st ! y)
                        \<and> \<not> isLargeConstant (constant_value (vars st ! y)) then
                  sa = emit (IncqImm (constant_value (vars st ! y)
                                        + word_of_int (ob_refcnt_offset (layout st)))) sb
                else
                  \<exists>reg sg code. getInReg y AnyReg False AnyReg sb = Inr (reg, sg)
                     \<and> emitted sg = emitted sb @ code \<and> filter is_incq code = []
                     \<and> (failed sg \<or> Register reg \<in> set (locations (vars sg ! y)))
                     \<and> sa = emit (IncqMem (Indirect reg (ob_refcnt_offset (layout st)))) sg)" .
  qed
  from commit_increfs_count[OF assms(1) s(1)] s each show ?thesis by blast
qed

text \<open>At an input: action 0 consumes the constant 0 and the owned variable 1, which is
  in RDI; nothing is emitted for the constant, and for variable 1 the one instruction
  \<^verbatim>\<open>incq [rdi]\<close>.\<close>

theorem commit_increfs_before_action_witness:
  "2 < length (vars consume_rewriter)
   \<and> consumed_refs (store_action\<lparr>consumed_refs := [0, 1]\<rparr>) = [0, 1]
   \<and> \<not> incref_due 0 (vars consume_rewriter ! 0) \<and> incref_due 0 (vars consume_rewriter ! 1)
   \<and> map_sum id fst (getInReg 1 AnyReg False AnyReg consume_rewriter) = Inr RDI
   \<and> (\<exists>res. commit_loop (\<lambda>op. Inr) 0 [store_action\<lparr>consumed_refs := [0, 1]\<rparr>] consume_rewriter
                = Inr res)
   \<and> commit_increfs 0 [0] consume_rewriter = Inr consume_rewriter
   \<and> (\<exists>sg. getInReg 1 AnyReg False AnyReg consume_rewriter = Inr (RDI, sg)
         \<and> emitted sg = []
         \<and> Register RDI \<in> set (locations (vars sg ! 1))
         \<and> commit_increfs 0 [1] consume_rewriter = Inr (emit (IncqMem (Indirect RDI 0)) sg))"
proof -
  let ?S = consume_rewriter
  let ?a = "store_action\<lparr>consumed_refs := [0, 1]\<rparr>"
  have c: "consumed_refs ?a = [0, 1]" by simp
  have f: "2 < length (vars ?S)" "\<not> incref_due 0 (vars ?S ! 0)" "incref_due 0 (vars ?S ! 1)"
    "\<not> (is_constant (vars ?S ! 1) \<and> \<not> isLargeConstant (constant_value (vars ?S ! 1)))"
    "ob_refcnt_offset (layout ?S) = 0" "emitted ?S = []" "\<not> failed ?S"
    by code_simp+
  have g: "map_sum id fst (getInReg 1 AnyReg False AnyReg ?S) = Inr RDI" by code_simp
  have gs: "getInReg 1 AnyReg False AnyReg ?S = Inr (RDI, ?S)"
    by (simp add: getInReg_def Let_def preserve_ok_def consume_rewriter_def emitting_rewriter_def
        initial_rewriter_def new_var_def plain_var_def const_var_def first_register.simps)
  have h: "\<forall>v \<in> set (consumed_refs ?a). v < length (vars ?S)" using f(1) by auto
  have "\<not> isl (commit_loop (\<lambda>op. Inr) 0 [?a] ?S)" by code_simp
  then obtain res where res: "commit_loop (\<lambda>op. Inr) 0 [?a] ?S = Inr res"
    by (cases "commit_loop (\<lambda>op. Inr) 0 [?a] ?S") auto
  from commit_increfs_before_action[OF h res] obtain st1 where
    e: "\<forall>xs y ys. consumed_refs ?a = xs @ y # ys \<longrightarrow>
          (\<exists>sb sa. commit_increfs 0 xs ?S = Inr sb \<and> commit_increfs 0 [y] sb = Inr sa
             \<and> commit_increfs 0 ys sa = Inr st1
             \<and> (if \<not> incref_due 0 (vars ?S ! y) then sa = sb
                else if is_constant (vars ?S ! y)
                        \<and> \<not> isLargeConstant (constant_value (vars ?S ! y)) then
                  sa = emit (IncqImm (constant_value (vars ?S ! y)
                                        + word_of_int (ob_refcnt_offset (layout ?S)))) sb
                else
                  \<exists>reg sg code. getInReg y AnyReg False AnyReg sb = Inr (reg, sg)
                     \<and> emitted sg = emitted sb @ code \<and> filter is_incq code = []
                     \<and> (failed sg \<or> Register reg \<in> set (locations (vars sg ! y)))
                     \<and> sa = emit (IncqMem (Indirect reg (ob_refcnt_offset (layout ?S)))) sg))"
    by blast
  from e[rule_format, of "[]" 0 "[1]"] c f(2)
  have z: "commit_increfs 0 [0] ?S = Inr ?S" by auto
  from e[rule_format, of "[0]" 1 "[]"] c z f(3,4) obtain sa reg sg where
    o: "commit_increfs 0 [1] ?S = Inr sa" "getInReg 1 AnyReg False AnyReg ?S = Inr (reg, sg)"
    "failed sg \<or> Register reg \<in> set (locations (vars sg ! 1))"
    "sa = emit (IncqMem (Indirect reg (ob_refcnt_offset (layout ?S)))) sg"
    by auto
  from o(2) gs have rs: "reg = RDI" "sg = ?S" by simp_all
  with o f(5,6,7) have "getInReg 1 AnyReg False AnyReg ?S = Inr (RDI, sg) \<and> emitted sg = []
         \<and> Register RDI \<in> set (locations (vars sg ! 1))
         \<and> commit_increfs 0 [1] ?S = Inr (emit (IncqMem (Indirect RDI 0)) sg)"
    by simp
  then have x: "\<exists>sg. getInReg 1 AnyReg False AnyReg ?S = Inr (RDI, sg) \<and> emitted sg = []
         \<and> Register RDI \<in> set (locations (vars sg ! 1))
         \<and> commit_increfs 0 [1] ?S = Inr (emit (IncqMem (Indirect RDI 0)) sg)" ..
  from res have r: "\<exists>res. commit_loop (\<lambda>op. Inr) 0 [?a] ?S = Inr res" ..
  show ?thesis using f(1,2,3) c g r z x by blast
qed

text \<open>Where C1 as it is stated fails.  Action 0 is the hand-off point neither of the
  constant 0 nor of the owned variable in RDI, which action 1 uses again; for the two of
  them one incref is emitted, not two: none for the constant.\<close>

theorem commit_increfs_counterexample:
  "\<not> handoff_at 0 (vars consume_rewriter ! 0) \<and> \<not> handoff_at 0 (vars consume_rewriter ! 1)
   \<and> done_guarding consume_rewriter \<and> emitted consume_rewriter = []
   \<and> map_sum id emitted (commit_increfs 0 [0, 1] consume_rewriter) = Inr [IncqMem (Indirect RDI 0)]"
  by code_simp

subsection \<open>Decref information at a call site\<close>

lemma decref_location_result:
  "list_all decref_handled (takeWhile (\<lambda>l. \<not> decref_eligible l) ls) \<Longrightarrow>
     decref_location st ls = Inr (map_option (decref_encode st) (List.find decref_eligible ls))"
proof (induction ls)
  case Nil
  then show ?case by simp
next
  case (Cons l ls)
  show ?case
  proof (cases "decref_eligible l")
    case True
    then show ?thesis
      by (cases l) (simp_all add: decref_eligible_def decref_encode_def indirectFor_def)
  next
    case False
    with Cons.prems have h: "decref_handled l"
      "list_all decref_handled (takeWhile (\<lambda>l. \<not> decref_eligible l) ls)" by simp_all
    from False h(1) obtain r where "l = Register r" "\<not> isCalleeSave r"
      by (cases l) (simp_all add: decref_eligible_def decref_handled_def)
    with False Cons.IH[OF h(2)] show ?thesis by simp
  qed
qed

lemma needsDecref_tracked:
  assumes "phase_emitting st" "locations var \<noteq> []"
    "reftype var \<noteq> OWNED \<or> num_refs_consumed var = 0
         \<or> (0 < last_refconsumed_numuses var
            \<and> last_refconsumed_numuses var \<le> length (uses var))"
  shows "needsDecref st var (current_action_idx st) = Inr (tracked st var)"
  using assms by (auto simp: needsDecref_def tracked_def Let_def)

lemma decref_vars_loop_result:
  assumes "phase_emitting st"
  shows "list_all (\<lambda>var.
        (locations var = [] \<or> reftype var \<noteq> OWNED \<or> num_refs_consumed var = 0
         \<or> (0 < last_refconsumed_numuses var
            \<and> last_refconsumed_numuses var \<le> length (uses var)))
        \<and> (\<not> tracked st var
           \<or> list_all decref_handled (takeWhile (\<lambda>l. \<not> decref_eligible l) (locations var)))) vs \<Longrightarrow>
     decref_vars_loop st vs acc f =
       Inr (acc @ concat (map (\<lambda>var. if tracked st var
                         then (case List.find decref_eligible (locations var) of
                                 Some l \<Rightarrow> [decref_encode st l]
                               | None \<Rightarrow> [])
                         else []) vs),
            f \<or> list_ex (\<lambda>var. tracked st var \<and> List.find decref_eligible (locations var) = None) vs)"
proof (induction vs arbitrary: acc f)
  case Nil
  then show ?case by simp
next
  case (Cons var vs)
  from Cons.prems have p: "locations var = [] \<or> reftype var \<noteq> OWNED \<or> num_refs_consumed var = 0
         \<or> (0 < last_refconsumed_numuses var
            \<and> last_refconsumed_numuses var \<le> length (uses var))"
    and q: "\<not> tracked st var
           \<or> list_all decref_handled (takeWhile (\<lambda>l. \<not> decref_eligible l) (locations var))"
    and rest: "list_all (\<lambda>var.
        (locations var = [] \<or> reftype var \<noteq> OWNED \<or> num_refs_consumed var = 0
         \<or> (0 < last_refconsumed_numuses var
            \<and> last_refconsumed_numuses var \<le> length (uses var)))
        \<and> (\<not> tracked st var
           \<or> list_all decref_handled (takeWhile (\<lambda>l. \<not> decref_eligible l) (locations var)))) vs"
    by simp_all
  note ih = Cons.IH[OF rest]
  show ?case
  proof (cases "locations var = []")
    case True
    then have "\<not> tracked st var" by (simp add: tracked_def)
    with True ih show ?thesis by simp
  next
    case ne: False
    with p have p': "reftype var \<noteq> OWNED \<or> num_refs_consumed var = 0
         \<or> (0 < last_refconsumed_numuses var
            \<and> last_refconsumed_numuses var \<le> length (uses var))" by simp
    note nd = needsDecref_tracked[OF assms ne p']
    show ?thesis
    proof (cases "tracked st var")
      case False
      with ne nd ih show ?thesis by simp
    next
      case True
      with q have "list_all decref_handled (takeWhile (\<lambda>l. \<not> decref_eligible l) (locations var))"
        by simp
      note dl = decref_location_result[OF this, of st]
      show ?thesis
        using True ne nd dl ih
        by (cases "List.find decref_eligible (locations var)") simp_all
    qed
  qed
qed

lemma registerDecrefInfoHere_result:
  assumes "phase_emitting st" and "decref_readable st"
    and "owned_attrs_loop st (owned_attrs st) = Inr attrs"
  shows "registerDecrefInfoHere st =
     Inr (st\<lparr>failed := failed st \<or> unplaceable st,
             decref_infos := decref_infos st @
               [(getSlotStart (rewrite st) + of_nat (bytesWritten st), decref_entries st @ attrs)]\<rparr>)"
  using decref_vars_loop_result[OF assms(1), of "vars st" "[]" "failed st"] assms(2,3)
  by (simp add: registerDecrefInfoHere_def getDecrefLocations_def decref_readable_def
      decref_entries_def unplaceable_def Let_def)

lemma callOptimalEncoding_call:
  assumes "rw_callOptimalEncoding r f s0 = Inr st"
  shows "\<exists>code ins. emitted st = emitted s0 @ code @ [ins] \<and> is_call ins"
proof (cases "isLargeConstant (f - (getSlotStart (rewrite s0) + of_nat (bytesWritten s0) + 5))")
  case True
  with assms obtain s1 where l: "loadConstIntoReg f r s0 = Inr s1" and e: "st = emit (CallqReg r) s1"
    by (auto simp: rw_callOptimalEncoding_def Let_def rbind_def split: if_splits sum.splits)
  from l obtain code where "emitted s1 = emitted s0 @ code"
    by (auto simp: loadConstIntoReg_def tryRegRegMove_def findConst_def tryLea_def moveImmediate_def
        emit_def rbind_def split: if_splits option.splits prod.splits sum.splits)
  with e show ?thesis by (auto simp: emit_def is_call_def)
next
  case False
  with assms have "st = emit (CallImm (sint (f - (getSlotStart (rewrite s0) + of_nat (bytesWritten s0) + 5)))) s0"
    by (auto simp: rw_callOptimalEncoding_def Let_def split: if_splits)
  then have "emitted st = emitted s0 @ [] @ [CallImm (sint (f - (getSlotStart (rewrite s0) + of_nat (bytesWritten s0) + 5)))]"
    by (simp add: emit_def)
  then show ?thesis by (auto simp: is_call_def simp del: append_Nil)
qed

lemma commit_loop_abort:
  assumes "commit_increfs i (consumed_refs a) s0 = Inr s1"
    and "exec (action a) (s1\<lparr>current_action_idx := int i\<rparr>) = Inr s2"
    and "failed s2" and "\<not> finished s2"
  shows "commit_loop exec i (a # rest) s0 = Inr (Aborted (s2\<lparr>finished := True\<rparr>))"
  using assms by (simp add: abort_def)

lemma decref_readable_split: "decref_readable st \<longleftrightarrow> refs_readable st \<and> \<not> unhandled st"
  by (auto simp: decref_readable_def refs_readable_def unhandled_def list_all_iff list_ex_iff)

lemma decref_location_unhandled:
  "\<not> list_all decref_handled (takeWhile (\<lambda>l. \<not> decref_eligible l) ls) \<Longrightarrow>
     decref_location st ls = Inl ReleaseAssertFail"
proof (induction ls)
  case Nil
  then show ?case by simp
next
  case (Cons l ls)
  from Cons.prems have ne: "\<not> decref_eligible l" by (cases "decref_eligible l") simp_all
  show ?case
  proof (cases "decref_handled l")
    case True
    with ne obtain r where r: "l = Register r" "\<not> isCalleeSave r"
      by (cases l) (simp_all add: decref_eligible_def decref_handled_def)
    from Cons.prems ne True
    have "\<not> list_all decref_handled (takeWhile (\<lambda>l. \<not> decref_eligible l) ls)" by simp
    from Cons.IH[OF this] r show ?thesis by simp
  next
    case False
    then show ?thesis by (cases l) (simp_all add: decref_handled_def)
  qed
qed

lemma decref_vars_loop_unhandled:
  assumes "phase_emitting st"
  shows "list_all (\<lambda>var. locations var = [] \<or> reftype var \<noteq> OWNED \<or> num_refs_consumed var = 0
                       \<or> (0 < last_refconsumed_numuses var
                           \<and> last_refconsumed_numuses var \<le> length (uses var))) vs \<Longrightarrow>
     list_ex (\<lambda>var. tracked st var
                \<and> \<not> list_all decref_handled (takeWhile (\<lambda>l. \<not> decref_eligible l) (locations var))) vs \<Longrightarrow>
     decref_vars_loop st vs acc f = Inl ReleaseAssertFail"
proof (induction vs arbitrary: acc f)
  case Nil
  then show ?case by simp
next
  case (Cons var vs)
  let ?U = "\<lambda>var. tracked st var
                \<and> \<not> list_all decref_handled (takeWhile (\<lambda>l. \<not> decref_eligible l) (locations var))"
  from Cons.prems(1) have p: "locations var = [] \<or> reftype var \<noteq> OWNED \<or> num_refs_consumed var = 0
         \<or> (0 < last_refconsumed_numuses var
            \<and> last_refconsumed_numuses var \<le> length (uses var))"
    and rest: "list_all (\<lambda>var. locations var = [] \<or> reftype var \<noteq> OWNED \<or> num_refs_consumed var = 0
                       \<or> (0 < last_refconsumed_numuses var
                           \<and> last_refconsumed_numuses var \<le> length (uses var))) vs"
    by simp_all
  from Cons.prems(2) have ex: "?U var \<or> list_ex ?U vs" by simp
  show ?case
  proof (cases "locations var = []")
    case True
    then have "\<not> tracked st var" by (simp add: tracked_def)
    with ex have "list_ex ?U vs" by simp
    from Cons.IH[OF rest this] True show ?thesis by simp
  next
    case ne: False
    with p have p': "reftype var \<noteq> OWNED \<or> num_refs_consumed var = 0
         \<or> (0 < last_refconsumed_numuses var
            \<and> last_refconsumed_numuses var \<le> length (uses var))" by simp
    note nd = needsDecref_tracked[OF assms ne p']
    show ?thesis
    proof (cases "tracked st var")
      case False
      with ex have "list_ex ?U vs" by simp
      from Cons.IH[OF rest this] False ne nd show ?thesis by simp
    next
      case tr: True
      show ?thesis
      proof (cases "list_all decref_handled (takeWhile (\<lambda>l. \<not> decref_eligible l) (locations var))")
        case True
        with tr ex have e: "list_ex ?U vs" by simp
        note dl = decref_location_result[OF True, of st]
        show ?thesis
          using tr ne nd dl Cons.IH[OF rest e]
          by (cases "List.find decref_eligible (locations var)") simp_all
      next
        case False
        from decref_location_unhandled[OF False, of st] tr ne nd show ?thesis by simp
      qed
    qed
  qed
qed

lemma registerDecrefInfoHere_cases:
  assumes "phase_emitting st" and "refs_readable st"
    and "owned_attrs_loop st (owned_attrs st) = Inr attrs"
  shows "registerDecrefInfoHere st =
     (if unhandled st then Inl ReleaseAssertFail else Inr (decref_registered st attrs))"
proof (cases "unhandled st")
  case True
  from decref_vars_loop_unhandled[OF assms(1), of "vars st" "[]" "failed st"] assms(2) True
  show ?thesis
    by (simp add: registerDecrefInfoHere_def getDecrefLocations_def refs_readable_def unhandled_def)
next
  case False
  with assms(2) have "decref_readable st" by (simp add: decref_readable_split)
  from registerDecrefInfoHere_result[OF assms(1) this assms(3)] False
  show ?thesis by (simp add: decref_registered_def)
qed

lemma allocScratch_failed: "allocScratch st = Inr (l, st') \<Longrightarrow> failed st \<longrightarrow> failed st'"
  by (drule allocScratch_step) (simp add: alloc_step_def)

lemma addLocationToVar_failed: "addLocationToVar v l st = Inr st' \<Longrightarrow> failed st \<longrightarrow> failed st'"
  by (drule addLocationToVar_step) (simp add: alloc_step_def)

lemma removeLocationFromVar_failed:
  "removeLocationFromVar v l st = Inr st' \<Longrightarrow> failed st \<longrightarrow> failed st'"
  by (drule removeLocationFromVar_step) (simp add: alloc_step_def)

lemma spillRegister_failed: "spillRegister reg p st = Inr st' \<Longrightarrow> failed st \<longrightarrow> failed st'"
  by (drule spillRegister_step) (simp add: alloc_step_def)

lemma allocReg_failed: "allocReg dest ot valid st = Inr (r, st') \<Longrightarrow> failed st \<longrightarrow> failed st'"
  by (drule allocReg_step) (simp add: alloc_step_def)

lemma loadConstIntoReg_failed: "loadConstIntoReg val dst st = Inr st' \<Longrightarrow> failed st \<longrightarrow> failed st'"
  by (drule loadConstIntoReg_step) (simp add: alloc_step_def)

lemma getInReg_failed: "getInReg v dest allow ot st = Inr (r, st') \<Longrightarrow> failed st \<longrightarrow> failed st'"
  by (drule getInReg_step) (simp add: alloc_step_def)

lemma spillRegisterXMM_failed:
  assumes "spillRegisterXMM reg st = Inr st'"
  shows "failed st \<longrightarrow> failed st'"
proof -
  from assms obtain v scratch s1 mem s2 where
    "allocScratch st = Inr (scratch, s1)"
    "addLocationToVar v scratch (emit (MovsdXM reg mem) s1) = Inr s2"
    "removeLocationFromVar v (XMMRegister reg) s2 = Inr st'"
    by (auto simp: spillRegisterXMM_def split: if_splits option.splits var_ref.splits
        dest!: rbind_InrD)
  then show ?thesis
    by (auto dest!: allocScratch_failed addLocationToVar_failed removeLocationFromVar_failed)
qed

lemma pad_nops_failed: "failed (pad_nops st) = failed st"
proof (induction st rule: pad_nops.induct)
  case (1 st)
  show ?case
  proof (cases "bytesWritten st < IC_INVALDITION_HEADER_SIZE (layout st)")
    case True
    from 1[OF True] have "failed (pad_nops (emit_nop st)) = failed (emit_nop st)" .
    moreover have "pad_nops st = pad_nops (emit_nop st)"
      using True by (subst pad_nops.simps) (simp del: pad_nops.simps)
    moreover have "failed (emit_nop st) = failed st" by (simp add: emit_nop_def)
    ultimately show ?thesis by (simp del: pad_nops.simps)
  next
    case False
    then have "pad_nops st = st" by (subst pad_nops.simps) (simp del: pad_nops.simps)
    then show ?thesis by (simp del: pad_nops.simps)
  qed
qed

lemma mark_inside_ic_failed:
  assumes "mark_inside_ic h p st = Inr st'"
  shows "failed st \<longrightarrow> failed st'"
proof (cases "h \<and> needs_invalidation_support st \<and> \<not> marked_inside_ic st")
  case False
  with assms show ?thesis by (auto simp: mark_inside_ic_def)
next
  case True
  show ?thesis
  proof (cases "isLargeConstant (num_inside_addr (rewrite st))")
    case l: True
    with True assms obtain reg s1 s2 where
      "allocReg AnyReg p (allocatable_regs st) st = Inr (reg, s1)"
      "loadConstIntoReg (num_inside_addr (rewrite st)) reg s1 = Inr s2"
      "st' = (emit (InclMem (Indirect reg 0)) s2)\<lparr>marked_inside_ic := True\<rparr>"
      by (auto simp: mark_inside_ic_def Let_def dest!: rbind_InrD)
    then show ?thesis by (auto dest!: allocReg_failed loadConstIntoReg_failed)
  next
    case False
    with True assms show ?thesis by (auto simp: mark_inside_ic_def Let_def)
  qed
qed

lemma sum_case_InrD:
  "(case m of Inl e \<Rightarrow> Inl e | Inr x \<Rightarrow> f x) = Inr y \<Longrightarrow> \<exists>x. m = Inr x \<and> f x = Inr y"
  by (cases m) simp_all

lemma setupCall_args_Cons:
  "setupCall_args i (var # rest) p st =
     (case (if \<not> isInLocation (vars st ! var) (forArg i) then
              (case forArg i of
                 Register r \<Rightarrow>
                   (case allocReg (forArg i) p (allocatable_regs st) st of
                      Inl e \<Rightarrow> Inl e
                    | Inr (r2, st1) \<Rightarrow>
                        if failed st1 then Inr (True, st1)
                        else if r \<noteq> r2 then Inl AssertFail
                        else if vars_by_location st1 (forArg i) \<noteq> None then Inl AssertFail
                        else
                          (case tryGetAsImmediate (vars st1 ! var) of (is_immediate, imm) \<Rightarrow>
                          if is_immediate then
                            rbind (addLocationToVar var (forArg i)
                                     (if imm = 0 then emit (ClearReg r) st1
                                      else emit (MovImm imm r) st1))
                                  (\<lambda>st2. Inr (False, st2))
                          else
                            rbind (getInReg var (forArg i) False AnyReg st1) (\<lambda>(r2', st2).
                              if \<not> isInLocation (vars st2 ! var) (Register r2') then Inl AssertFail
                              else if r2' \<noteq> r then Inl AssertFail
                              else Inr (False, st2))))
               | _ \<Rightarrow> Inl AssertFail)
            else Inr (False, st)) of
        Inl e \<Rightarrow> Inl e
      | Inr (returned, st') \<Rightarrow>
          if returned then Inr (True, st')
          else if \<not> isInLocation (vars st' ! var) (forArg i) then Inl AssertFail
          else setupCall_args (Suc i) rest p st')"
  unfolding setupCall_args.simps Let_def ..

lemma setupCall_args_failed:
  "setupCall_args i call_args p st = Inr (b, st') \<Longrightarrow> failed st \<longrightarrow> failed st'"
proof (induction call_args arbitrary: i st)
  case Nil
  then show ?case by simp
next
  case (Cons var rest)
  let ?inner = "(if \<not> isInLocation (vars st ! var) (forArg i) then
              (case forArg i of
                 Register r \<Rightarrow>
                   (case allocReg (forArg i) p (allocatable_regs st) st of
                      Inl e \<Rightarrow> Inl e
                    | Inr (r2, st1) \<Rightarrow>
                        if failed st1 then Inr (True, st1)
                        else if r \<noteq> r2 then Inl AssertFail
                        else if vars_by_location st1 (forArg i) \<noteq> None then Inl AssertFail
                        else
                          (case tryGetAsImmediate (vars st1 ! var) of (is_immediate, imm) \<Rightarrow>
                          if is_immediate then
                            rbind (addLocationToVar var (forArg i)
                                     (if imm = 0 then emit (ClearReg r) st1
                                      else emit (MovImm imm r) st1))
                                  (\<lambda>st2. Inr (False, st2))
                          else
                            rbind (getInReg var (forArg i) False AnyReg st1) (\<lambda>(r2', st2).
                              if \<not> isInLocation (vars st2 ! var) (Register r2') then Inl AssertFail
                              else if r2' \<noteq> r then Inl AssertFail
                              else Inr (False, st2))))
               | _ \<Rightarrow> Inl AssertFail)
            else Inr (False, st))"
  from Cons.prems[unfolded setupCall_args_Cons] obtain x where inner0: "?inner = Inr x"
    and cont0: "(case x of (returned, st'') \<Rightarrow>
          if returned then Inr (True, st'')
          else if \<not> isInLocation (vars st'' ! var) (forArg i) then Inl AssertFail
          else setupCall_args (Suc i) rest p st'') = Inr (b, st')"
    by (blast dest: sum_case_InrD)
  obtain returned s1 where x: "x = (returned, s1)" by (cases x)
  from inner0 x have inner: "?inner = Inr (returned, s1)" by (simp only:)
  from cont0 x have cont: "(if returned then Inr (True, s1)
          else if \<not> isInLocation (vars s1 ! var) (forArg i) then Inl AssertFail
          else setupCall_args (Suc i) rest p s1) = Inr (b, st')"
    by (simp only: prod.case)
  have f1: "failed st \<longrightarrow> failed s1"
  proof (cases "isInLocation (vars st ! var) (forArg i)")
    case True
    with inner show ?thesis by simp
  next
    case False
    with inner obtain r where r: "forArg i = Register r"
      by (cases "forArg i") simp_all
    with False inner obtain r2 st1 where a: "allocReg (forArg i) p (allocatable_regs st) st = Inr (r2, st1)"
      by (auto split: sum.splits)
    note af = allocReg_failed[OF a]
    show ?thesis
    proof (cases "failed st1")
      case True
      with False inner r a show ?thesis by simp
    next
      case nf: False
      obtain is_immediate imm where t: "tryGetAsImmediate (vars st1 ! var) = (is_immediate, imm)"
        by (cases "tryGetAsImmediate (vars st1 ! var)")
      show ?thesis
      proof (cases is_immediate)
        case True
        with False inner r a nf t obtain ins where
          "addLocationToVar var (forArg i) (emit ins st1) = Inr s1"
          by (auto split: if_splits dest!: rbind_InrD)
        from addLocationToVar_failed[OF this] af show ?thesis by simp
      next
        case im: False
        with False inner r a nf t obtain r2' where
          "getInReg var (forArg i) False AnyReg st1 = Inr (r2', s1)"
          by (auto split: if_splits dest!: rbind_InrD)
        from getInReg_failed[OF this] af show ?thesis by simp
      qed
    qed
  qed
  show ?case
  proof (cases returned)
    case True
    with cont f1 show ?thesis by simp
  next
    case False
    with cont have "setupCall_args (Suc i) rest p s1 = Inr (b, st')" by (simp split: if_splits)
    from Cons.IH[OF this] f1 show ?thesis by simp
  qed
qed

lemma setupCall_spill_failed:
  "setupCall_spill regs call_args p st = Inr (b, st') \<Longrightarrow> failed st \<longrightarrow> failed st'"
proof (induction regs arbitrary: st)
  case Nil
  then show ?case by simp
next
  case (Cons check_reg rest)
  show ?case
  proof (cases "vars_by_location st check_reg")
    case None
    with Cons.prems have "setupCall_spill rest call_args p st = Inr (b, st')" by simp
    from Cons.IH[OF this] show ?thesis .
  next
    case (Some x)
    with Cons.prems obtain v where v: "x = Var v" by (cases x) simp_all
    with Some Cons.prems obtain need0 where n: "need_to_spill_of (locations (vars st ! v)) = Inr need0"
      by (auto split: sum.splits)
    show ?thesis
    proof (cases "need0 \<and> \<not> (v \<in> set call_args \<and> isDoneUsing (vars st ! v))")
      case True
      with Some v n Cons.prems obtain st1 where
        sp: "(case check_reg of
                Register r \<Rightarrow> spillRegister r p st
              | XMMRegister n \<Rightarrow>
                  if length (locations (vars st ! v)) \<noteq> 1 then Inl AssertFail
                  else spillRegisterXMM n st
              | _ \<Rightarrow> Inl AssertFail) = Inr st1"
        and cont: "(if failed st1 then Inr (True, st1)
                    else setupCall_spill rest call_args p st1) = Inr (b, st')"
        by (auto split: sum.splits)
      from sp have f1: "failed st \<longrightarrow> failed st1"
        by (cases check_reg)
           (auto split: if_splits dest!: spillRegister_failed spillRegisterXMM_failed)
      show ?thesis
      proof (cases "failed st1")
        case True
        with cont show ?thesis by simp
      next
        case False
        with cont have "setupCall_spill rest call_args p st1 = Inr (b, st')" by simp
        from Cons.IH[OF this] f1 show ?thesis by simp
      qed
    next
      case False
      with Some v n Cons.prems obtain st1 where
        rm: "removeLocationFromVar v check_reg st = Inr st1"
        and cont: "setupCall_spill rest call_args p st1 = Inr (b, st')"
        by (auto split: sum.splits)
      from Cons.IH[OF cont] removeLocationFromVar_failed[OF rm] show ?thesis by simp
    qed
  qed
qed

lemma bump_all_failed:
  "keeps_failed f \<Longrightarrow> bump_all f vs st = Inr st' \<Longrightarrow> failed st \<longrightarrow> failed st'"
proof (induction vs arbitrary: st)
  case Nil
  then show ?case by simp
next
  case (Cons v vs)
  from Cons.prems(2) obtain s1 where s: "f v st = Inr s1" "bump_all f vs s1 = Inr st'"
    by (auto split: sum.splits)
  from Cons.prems(1) s(1) have "failed st \<longrightarrow> failed s1" by (auto simp: keeps_failed_def)
  with Cons.IH[OF Cons.prems(1) s(2)] show ?case by simp
qed

lemma keeps_failed_id: "keeps_failed (\<lambda>u. Inr)"
  by (simp add: keeps_failed_def)

lemma rw_setupCall_failed:
  assumes k: "keeps_failed be" and r: "rw_setupCall be h call_args xmm p bump st = Inr st'"
  shows "failed st \<longrightarrow> failed st'"
proof -
  let ?s0 = "if h then pad_nops st else st"
  have f0: "failed ?s0 = failed st" by (simp add: pad_nops_failed del: pad_nops.simps)
  from r obtain st2 returned st3 where
    m: "mark_inside_ic h p ?s0 = Inr st2"
    and a: "setupCall_args 0 call_args p st2 = Inr (returned, st3)"
    and c: "(if returned then Inr st3
          else if \<not> list_all (\<lambda>(i, a). isInLocation (vars st3 ! a) (XMMRegister i))
                       (zip [0 ..< length xmm] xmm) then Inl AssertFail
          else if \<not> list_all (\<lambda>(i, a). isInLocation (vars st3 ! a) (forArg i))
                       (zip [0 ..< length call_args] call_args) then Inl AssertFail
          else
            rbind (bump_all be bump st3) (\<lambda>st4.
            rbind (setupCall_spill caller_save_registers call_args p st4)
              (\<lambda>(returned', st5).
                if returned' then Inr st5
                else if \<not> list_all (\<lambda>l. vars_by_location st5 l = None) caller_save_registers
                then Inl AssertFail
                else Inr st5))) = Inr st'"
    unfolding rw_setupCall_def
    by (auto simp del: pad_nops.simps split: if_splits dest!: rbind_InrD)
  from mark_inside_ic_failed[OF m] setupCall_args_failed[OF a] f0
  have f3: "failed st \<longrightarrow> failed st3" by simp
  show ?thesis
  proof (cases returned)
    case True
    with c f3 show ?thesis by simp
  next
    case False
    with c obtain st4 returned' st5 where
      b: "bump_all be bump st3 = Inr st4"
      and s: "setupCall_spill caller_save_registers call_args p st4 = Inr (returned', st5)"
      and e: "st' = st5"
      by (auto simp del: pad_nops.simps split: if_splits dest!: rbind_InrD)
    from bump_all_failed[OF k b] setupCall_spill_failed[OF s] f3 e show ?thesis by simp
  qed
qed

lemma rw_callOptimalEncoding_failed:
  "rw_callOptimalEncoding r f st = Inr st' \<Longrightarrow> failed st \<longrightarrow> failed st'"
  by (auto simp: rw_callOptimalEncoding_def Let_def split: if_splits
      dest!: rbind_InrD loadConstIntoReg_failed)

lemma rw_decref_failed:
  assumes k: "keeps_failed be" "keeps_failed bl"
    and r: "rw_decref be bl var bump st = Inr st'"
  shows "failed st \<longrightarrow> failed st'"
proof -
  from r obtain st1 where s: "rw_setupCall be True [var] [] (Register RAX) bump st = Inr st1"
    and b: "bump_all bl bump
              (emit (CallqMem (Indirect RAX (tp_dealloc_offset (layout st1))))
                (emit (MovMR (Indirect RDI (ob_cls_offset (layout st1))) RAX)
                  (emit (ForwardJump COND_NOT_ZERO)
                    (emit (DecqMem (Indirect RDI (ob_refcnt_offset (layout st1)))) st1)))) = Inr st'"
    by (auto simp: rw_decref_def Let_def split: if_splits dest!: rbind_InrD)
  from rw_setupCall_failed[OF k(1) s] bump_all_failed[OF k(2) b] show ?thesis by simp
qed

lemma rw_call_no_result_failed:
  assumes k: "keeps_failed be" "keeps_failed bl"
    and r: "rw_call_no_result be bl h False f call_args xmm bump st = Inr st'"
  shows "failed st \<longrightarrow> failed st'"
proof -
  from r obtain rg st1 where a: "allocReg (Register R11) AnyReg (allocatable_regs st) st = Inr (rg, st1)"
    and c: "(if failed st1 then Inr st1
       else
         rbind (rw_setupCall be h call_args xmm (Register R11) bump st1) (\<lambda>st2.
         rbind (rw_callOptimalEncoding rg f st2) (\<lambda>st3.
         rbind (if False then registerDecrefInfoHere st3 else Inr st3) (\<lambda>st4.
           if \<not> failed st4 \<and> vars_by_location st4 (Register RAX) \<noteq> None then Inl AssertFail
           else bump_all bl bump st4)))) = Inr st'"
    by (auto simp: rw_call_no_result_def dest!: rbind_InrD)
  note f1 = allocReg_failed[OF a]
  show ?thesis
  proof (cases "failed st1")
    case True
    with c show ?thesis by simp
  next
    case False
    with c obtain st2 st3 where s: "rw_setupCall be h call_args xmm (Register R11) bump st1 = Inr st2"
      and o: "rw_callOptimalEncoding rg f st2 = Inr st3"
      and b: "bump_all bl bump st3 = Inr st'"
      by (auto split: if_splits dest!: rbind_InrD)
    from f1 rw_setupCall_failed[OF k(1) s] rw_callOptimalEncoding_failed[OF o]
      bump_all_failed[OF k(2) b] show ?thesis by simp
  qed
qed

lemma rw_xdecref_failed:
  assumes k: "keeps_failed be" "keeps_failed bl"
    and r: "rw_xdecref be bl var bump st = Inr st'"
  shows "failed st \<longrightarrow> failed st'"
proof -
  from r have "rw_call_no_result be bl True False (xdecref_addr (layout st)) [var] [] bump st = Inr st'"
    by (auto simp: rw_xdecref_def split: if_splits)
  from rw_call_no_result_failed[OF k this] show ?thesis .
qed

lemma release_scratch_failed:
  "release_scratch var is st = Inr st' \<Longrightarrow> failed st' = failed st"
proof (induction "is" arbitrary: st)
  case Nil
  then show ?case by simp
next
  case (Cons i "is")
  from Cons.prems obtain l where
    "release_scratch var is (st\<lparr>vars_by_location := (vars_by_location st)(l := None)\<rparr>) = Inr st'"
    by (auto split: sum.splits if_splits)
  from Cons.IH[OF this] show ?case by simp
qed

lemma rw_release_failed:
  assumes r: "rw_release v st = Inr st'"
  shows "failed st \<longrightarrow> failed st'"
proof -
  let ?d = "if reftype (vars st ! v) = OWNED \<and> \<not> refHandedOff (vars st ! v) then
              (if nullable (vars st ! v)
               then rw_xdecref (\<lambda>u. Inr) (\<lambda>u. Inr) v [] st
               else rw_decref (\<lambda>u. Inr) (\<lambda>u. Inr) v [] st)
            else Inr st"
  from r obtain st1 where d: "?d = Inr st1"
    and c: "(let st2 = st1\<lparr>vars_by_location :=
                       (\<lambda>l. if l \<in> set (locations (vars st1 ! v)) then None
                            else vars_by_location st1 l)\<rparr>
       in rbind (if isScratchAllocation (vars st2 ! v) then
                   rbind (release_scratch (vars st2 ! v)
                            [0 ..< nat (snd (scratch_allocation (vars st2 ! v)))] st2) (\<lambda>st3.
                     Inr (st3\<lparr>vars := (vars st3)[v := (vars st3 ! v)\<lparr>scratch_allocation := (0, 0)\<rparr>]\<rparr>))
                 else Inr st2) (\<lambda>st4.
            Inr (st4\<lparr>vars := (vars st4)[v := (vars st4 ! v)\<lparr>locations := []\<rparr>]\<rparr>))) = Inr st'"
    unfolding rw_release_def by (blast dest: rbind_InrD)
  have f1: "failed st \<longrightarrow> failed st1"
  proof (cases "reftype (vars st ! v) = OWNED \<and> \<not> refHandedOff (vars st ! v)")
    case False
    with d show ?thesis by simp
  next
    case True
    show ?thesis
    proof (cases "nullable (vars st ! v)")
      case n: True
      with True d have "rw_xdecref (\<lambda>u. Inr) (\<lambda>u. Inr) v [] st = Inr st1" by simp
      from rw_xdecref_failed[OF keeps_failed_id keeps_failed_id this] show ?thesis .
    next
      case n: False
      with True d have "rw_decref (\<lambda>u. Inr) (\<lambda>u. Inr) v [] st = Inr st1" by simp
      from rw_decref_failed[OF keeps_failed_id keeps_failed_id this] show ?thesis .
    qed
  qed
  let ?s2 = "st1\<lparr>vars_by_location :=
                       (\<lambda>l. if l \<in> set (locations (vars st1 ! v)) then None
                            else vars_by_location st1 l)\<rparr>"
  from c obtain st4 where e: "(if isScratchAllocation (vars ?s2 ! v) then
                   rbind (release_scratch (vars ?s2 ! v)
                            [0 ..< nat (snd (scratch_allocation (vars ?s2 ! v)))] ?s2) (\<lambda>st3.
                     Inr (st3\<lparr>vars := (vars st3)[v := (vars st3 ! v)\<lparr>scratch_allocation := (0, 0)\<rparr>]\<rparr>))
                 else Inr ?s2) = Inr st4"
    and g: "st' = st4\<lparr>vars := (vars st4)[v := (vars st4 ! v)\<lparr>locations := []\<rparr>]\<rparr>"
    unfolding Let_def by (auto dest!: rbind_InrD)
  have "failed st4 = failed st1"
  proof (cases "isScratchAllocation (vars ?s2 ! v)")
    case True
    with e obtain st3 where "release_scratch (vars ?s2 ! v)
                            [0 ..< nat (snd (scratch_allocation (vars ?s2 ! v)))] ?s2 = Inr st3"
      "st4 = st3\<lparr>vars := (vars st3)[v := (vars st3 ! v)\<lparr>scratch_allocation := (0, 0)\<rparr>]\<rparr>"
      by (auto dest!: rbind_InrD)
    with release_scratch_failed[OF this(1)] show ?thesis by simp
  next
    case False
    with e show ?thesis by auto
  qed
  with f1 g show ?thesis by simp
qed

lemma bumpUse_failed: "bumpUse v st = Inr st' \<Longrightarrow> failed st \<longrightarrow> failed st'"
  by (auto simp: bumpUse_def Let_def split: if_splits dest!: rw_release_failed)

lemma releaseIfNoUses_failed: "releaseIfNoUses v st = Inr st' \<Longrightarrow> failed st \<longrightarrow> failed st'"
  by (auto simp: releaseIfNoUses_def split: if_splits dest!: rw_release_failed)

lemma rw_call_finish_failed:
  assumes k: "keeps_failed bl" and r: "rw_call_finish bl result bump st = Inr st'"
    and f: "failed st"
  shows "failed st'"
proof -
  from r f obtain st2 where
    a: "(case result of None \<Rightarrow> Inr st | Some res \<Rightarrow> releaseIfNoUses res st) = Inr st2"
    and b: "bump_all bl bump st2 = Inr st'"
    by (auto simp: rw_call_finish_def dest!: rbind_InrD)
  from a f have "failed st2"
    by (cases result) (auto dest!: releaseIfNoUses_failed)
  with bump_all_failed[OF k b] show ?thesis by simp
qed

lemma rw_call_site_call:
  assumes "rw_call_site be h f call_args xmm bump s0 = Inr (False, st)"
  shows "\<exists>code ins. emitted st = code @ [ins] \<and> is_call ins"
proof -
  from assms obtain r st2 where "rw_callOptimalEncoding r f st2 = Inr st"
    by (auto simp: rw_call_site_def split: if_splits dest!: rbind_InrD)
  from callOptimalEncoding_call[OF this] obtain code ins where
    "emitted st = (emitted st2 @ code) @ [ins]" "is_call ins" by auto
  then show ?thesis by blast
qed

lemma rw_capi_site_call:
  assumes "rw_capi_site be p t r exc_val type s0 = Inr st"
  shows "\<exists>code ins. emitted st = code @ [ins] \<and> is_call ins"
proof -
  from assms obtain st3 where "rw_callOptimalEncoding R11 t st3 = Inr st"
    by (auto simp: rw_capi_site_def dest!: rbind_InrD)
  from callOptimalEncoding_call[OF this] obtain code ins where
    "emitted st = (emitted st3 @ code) @ [ins]" "is_call ins" by auto
  then show ?thesis by blast
qed

lemma decref_registered_failed: "unplaceable st \<Longrightarrow> failed (decref_registered st attrs)"
  by (simp add: decref_registered_def)

lemma action_state_abort:
  assumes "action_state i a c0 s0" and "exec (action a) s0 = Inr s5"
    and "failed s5" and "\<not> finished s5"
  shows "commit_loop exec i (a # rest) c0 = Inr (Aborted (s5\<lparr>finished := True\<rparr>))"
proof -
  from assms(1) obtain c1 where "commit_increfs i (consumed_refs a) c0 = Inr c1"
    "s0 = c1\<lparr>current_action_idx := int i\<rparr>"
    by (auto simp: action_state_def split: sum.splits)
  with assms(2,3,4) show ?thesis by (simp add: abort_def)
qed

text \<open>
  Claim C2, as the code has it.  Let \<open>st\<close> be the rewriter right after the call
  instruction of \<^verbatim>\<open>_call\<close> (with \<open>can_throw\<close>) or of
  \<^verbatim>\<open>_checkAndThrowCAPIException\<close>, in the emit phase, where \<^verbatim>\<open>needsDecref\<close> can
  read the uses of the variables.  The last instruction emitted is the call, and
  \<^verbatim>\<open>registerDecrefInfoHere()\<close> runs next, before the rest of the function.  If some
  tracked variable (it has a location, its reference type is \<open>OWNED\<close>, and
  \<^verbatim>\<open>needsDecref\<close> holds at the current action) has, before any location that can be
  recorded, a location that is neither a scratch slot nor a register, the release assertion
  \<^verbatim>\<open>not implemented\<close> fails, and so does the function.  Otherwise one entry is appended
  to \<open>decref_infos\<close>, at the address of the next instruction, the return address of the
  call; it holds for each tracked variable, in the order of the variables, the first of
  its locations that is a scratch slot, recorded as a stack location at the offset from
  SP, or a register that a call does not clobber; then the entries of the owned
  attributes; and \<open>failed\<close> is set when some tracked variable has no such location.
  \<open>failed\<close> is then still set when the function returns, and the emit loop of
  \<^verbatim>\<open>commit()\<close>, which ran the function as the closure of an action, aborts: it stops
  after \<^verbatim>\<open>abort()\<close>, before anything is handed to the slot.
\<close>

theorem decref_info_at_call_site:
  assumes "phase_emitting st" and "refs_readable st"
    and "owned_attrs_loop st (owned_attrs st) = Inr attrs"
  shows "registerDecrefInfoHere st =
           (if unhandled st then Inl ReleaseAssertFail else Inr (decref_registered st attrs))
     \<and> (\<forall>be bl result h f call_args xmm bump s0.
          rw_call_site be h f call_args xmm bump s0 = Inr (False, st) \<longrightarrow>
            (\<exists>code ins. emitted st = code @ [ins] \<and> is_call ins)
            \<and> rw_call be bl result h True f call_args xmm bump s0 =
                (if unhandled st then Inl ReleaseAssertFail
                 else rw_call_finish bl result bump (decref_registered st attrs))
            \<and> (\<forall>s5 exec i a rest c0.
                  unplaceable st \<and> keeps_failed bl
                  \<and> rw_call be bl result h True f call_args xmm bump s0 = Inr s5
                  \<and> action_state i a c0 s0
                  \<and> exec (action a) s0 = rw_call be bl result h True f call_args xmm bump s0
                  \<and> \<not> finished s5 \<longrightarrow>
                  failed s5
                  \<and> commit_loop exec i (a # rest) c0 = Inr (Aborted (s5\<lparr>finished := True\<rparr>))))
     \<and> (\<forall>be p t r exc_val type s0.
          rw_capi_site be p t r exc_val type s0 = Inr st \<longrightarrow>
            (\<exists>code ins. emitted st = code @ [ins] \<and> is_call ins)
            \<and> rw_checkAndThrowCAPIException be p t r exc_val type s0 =
                (if unhandled st then Inl ReleaseAssertFail
                 else bumpUse r (decref_registered st attrs))
            \<and> (\<forall>s5 exec i a rest c0.
                  unplaceable st
                  \<and> rw_checkAndThrowCAPIException be p t r exc_val type s0 = Inr s5
                  \<and> action_state i a c0 s0
                  \<and> exec (action a) s0 = rw_checkAndThrowCAPIException be p t r exc_val type s0
                  \<and> \<not> finished s5 \<longrightarrow>
                  failed s5
                  \<and> commit_loop exec i (a # rest) c0 = Inr (Aborted (s5\<lparr>finished := True\<rparr>))))"
proof -
  note reg = registerDecrefInfoHere_cases[OF assms]
  have call: "(\<exists>code ins. emitted st = code @ [ins] \<and> is_call ins)
            \<and> rw_call be bl result h True f call_args xmm bump s0 =
                (if unhandled st then Inl ReleaseAssertFail
                 else rw_call_finish bl result bump (decref_registered st attrs))
            \<and> (\<forall>s5 exec i a rest c0.
                  unplaceable st \<and> keeps_failed bl
                  \<and> rw_call be bl result h True f call_args xmm bump s0 = Inr s5
                  \<and> action_state i a c0 s0
                  \<and> exec (action a) s0 = rw_call be bl result h True f call_args xmm bump s0
                  \<and> \<not> finished s5 \<longrightarrow>
                  failed s5
                  \<and> commit_loop exec i (a # rest) c0 = Inr (Aborted (s5\<lparr>finished := True\<rparr>)))"
    if s: "rw_call_site be h f call_args xmm bump s0 = Inr (False, st)"
    for be bl result h f call_args xmm bump s0
  proof -
    have e: "rw_call be bl result h True f call_args xmm bump s0 =
                (if unhandled st then Inl ReleaseAssertFail
                 else rw_call_finish bl result bump (decref_registered st attrs))"
      using s reg by (simp add: rw_call_def)
    have a: "failed s5
          \<and> commit_loop exec i (a # rest) c0 = Inr (Aborted (s5\<lparr>finished := True\<rparr>))"
      if h: "unplaceable st \<and> keeps_failed bl
                  \<and> rw_call be bl result h True f call_args xmm bump s0 = Inr s5
                  \<and> action_state i a c0 s0
                  \<and> exec (action a) s0 = rw_call be bl result h True f call_args xmm bump s0
                  \<and> \<not> finished s5"
      for s5 exec i a rest c0
    proof -
      from h e have fin: "rw_call_finish bl result bump (decref_registered st attrs) = Inr s5"
        by (auto split: if_splits)
      from h have "failed (decref_registered st attrs)" by (simp add: decref_registered_failed)
      with h fin have f: "failed s5" by (blast intro: rw_call_finish_failed)
      from h have h1: "action_state i a c0 s0" and h2: "exec (action a) s0 = Inr s5"
        and h3: "\<not> finished s5" by simp_all
      from h1 h2 f h3
      have "commit_loop exec i (a # rest) c0 = Inr (Aborted (s5\<lparr>finished := True\<rparr>))"
        by (rule action_state_abort)
      with f show ?thesis by simp
    qed
    from rw_call_site_call[OF s] e a show ?thesis by blast
  qed
  have capi: "(\<exists>code ins. emitted st = code @ [ins] \<and> is_call ins)
            \<and> rw_checkAndThrowCAPIException be p t r exc_val type s0 =
                (if unhandled st then Inl ReleaseAssertFail
                 else bumpUse r (decref_registered st attrs))
            \<and> (\<forall>s5 exec i a rest c0.
                  unplaceable st
                  \<and> rw_checkAndThrowCAPIException be p t r exc_val type s0 = Inr s5
                  \<and> action_state i a c0 s0
                  \<and> exec (action a) s0 = rw_checkAndThrowCAPIException be p t r exc_val type s0
                  \<and> \<not> finished s5 \<longrightarrow>
                  failed s5
                  \<and> commit_loop exec i (a # rest) c0 = Inr (Aborted (s5\<lparr>finished := True\<rparr>)))"
    if s: "rw_capi_site be p t r exc_val type s0 = Inr st"
    for be p t r exc_val type s0
  proof -
    have e: "rw_checkAndThrowCAPIException be p t r exc_val type s0 =
                (if unhandled st then Inl ReleaseAssertFail
                 else bumpUse r (decref_registered st attrs))"
      using s reg by (simp add: rw_checkAndThrowCAPIException_def)
    have a: "failed s5
          \<and> commit_loop exec i (a # rest) c0 = Inr (Aborted (s5\<lparr>finished := True\<rparr>))"
      if h: "unplaceable st
                  \<and> rw_checkAndThrowCAPIException be p t r exc_val type s0 = Inr s5
                  \<and> action_state i a c0 s0
                  \<and> exec (action a) s0 = rw_checkAndThrowCAPIException be p t r exc_val type s0
                  \<and> \<not> finished s5"
      for s5 exec i a rest c0
    proof -
      from h e have fin: "bumpUse r (decref_registered st attrs) = Inr s5"
        by (auto split: if_splits)
      from h have "failed (decref_registered st attrs)" by (simp add: decref_registered_failed)
      with bumpUse_failed[OF fin] have f: "failed s5" by simp
      from h have h1: "action_state i a c0 s0" and h2: "exec (action a) s0 = Inr s5"
        and h3: "\<not> finished s5" by simp_all
      from h1 h2 f h3
      have "commit_loop exec i (a # rest) c0 = Inr (Aborted (s5\<lparr>finished := True\<rparr>))"
        by (rule action_state_abort)
      with f show ?thesis by simp
    qed
    from rw_capi_site_call[OF s] e a show ?thesis by blast
  qed
  from reg call capi show ?thesis by blast
qed

text \<open>At an input: the call spills RAX, for which no scratch slot is left, and the call
  instruction is emitted all the same; the entry recorded at the return address holds the
  stack location of the variable in scratch slot 0; the variable in RAX has no location
  that can be recorded, \<open>failed\<close> is set, and the emit loop aborts.\<close>

theorem decref_info_at_call_site_witness:
  "phase_emitting call_site_rewriter \<and> refs_readable call_site_rewriter
   \<and> owned_attrs_loop call_site_rewriter (owned_attrs call_site_rewriter) = Inr []
   \<and> \<not> unhandled call_site_rewriter \<and> unplaceable call_site_rewriter
   \<and> rw_call_site (\<lambda>u. Inr) False 0x401000 [] [] [] (call_rewriter\<lparr>current_action_idx := 0\<rparr>)
        = Inr (False, call_site_rewriter)
   \<and> emitted call_site_rewriter = [MovImm 0x401000 R11, CallqReg R11]
   \<and> decref_entries call_site_rewriter = [Stack 32]
   \<and> registerDecrefInfoHere call_site_rewriter = Inr (decref_registered call_site_rewriter [])
   \<and> decref_infos (decref_registered call_site_rewriter []) = [(0x7F0000001008, [Stack 32])]
   \<and> rw_call (\<lambda>u. Inr) (\<lambda>u. Inr) None False True 0x401000 [] [] []
          (call_rewriter\<lparr>current_action_idx := 0\<rparr>)
        = rw_call_finish (\<lambda>u. Inr) None [] (decref_registered call_site_rewriter [])
   \<and> (\<exists>s5. commit_loop call_exec 0 [call_action] call_rewriter = Inr (Aborted s5)
          \<and> failed s5 \<and> finished s5)"
proof -
  let ?st = call_site_rewriter
  let ?s0 = "call_rewriter\<lparr>current_action_idx := 0\<rparr>"
  let ?call = "rw_call (\<lambda>u. Inr) (\<lambda>u. Inr) None False True 0x401000 [] [] [] ?s0"
  have h: "phase_emitting ?st" "refs_readable ?st"
    "owned_attrs_loop ?st (owned_attrs ?st) = Inr []"
    by code_simp+
  have u: "\<not> unhandled ?st" "unplaceable ?st" by code_simp+
  have "\<not> isl (rw_call_site (\<lambda>u. Inr) False 0x401000 [] [] [] ?s0)"
    "\<not> fst (projr (rw_call_site (\<lambda>u. Inr) False 0x401000 [] [] [] ?s0))"
    by code_simp+
  then have s: "rw_call_site (\<lambda>u. Inr) False 0x401000 [] [] [] ?s0 = Inr (False, ?st)"
    by (cases "rw_call_site (\<lambda>u. Inr) False 0x401000 [] [] [] ?s0")
       (auto simp: call_site_rewriter_def)
  have e: "emitted ?st = [MovImm 0x401000 R11, CallqReg R11]" "decref_entries ?st = [Stack 32]"
    "decref_infos ?st @ [(getSlotStart (rewrite ?st) + of_nat (bytesWritten ?st),
                          decref_entries ?st @ [])] = [(0x7F0000001008, [Stack 32])]"
    by code_simp+
  then have d: "decref_infos (decref_registered ?st []) = [(0x7F0000001008, [Stack 32])]"
    by (simp add: decref_registered_def)
  have "\<not> isl ?call" "\<not> finished (projr ?call)" by code_simp+
  then obtain s5 where c: "?call = Inr s5" and nf: "\<not> finished s5"
    by (cases ?call) auto
  have a: "action_state 0 call_action call_rewriter ?s0"
    by (simp add: action_state_def call_action_def)
  have x: "call_exec (action call_action) ?s0 = ?call"
    by (simp add: call_exec_def call_action_def)
  note t = decref_info_at_call_site[OF h]
  from t u(1) have r: "registerDecrefInfoHere ?st = Inr (decref_registered ?st [])" by simp
  from t s u(1) have f: "?call = rw_call_finish (\<lambda>u. Inr) None [] (decref_registered ?st [])"
    by (simp only: if_False)
  from t s have "\<forall>s5 exec i a rest c0.
                  unplaceable ?st \<and> keeps_failed (\<lambda>u. Inr)
                  \<and> ?call = Inr s5
                  \<and> action_state i a c0 ?s0
                  \<and> exec (action a) ?s0 = ?call
                  \<and> \<not> finished s5 \<longrightarrow>
                  failed s5
                  \<and> commit_loop exec i (a # rest) c0 = Inr (Aborted (s5\<lparr>finished := True\<rparr>))"
    by blast
  from this[rule_format, of s5 0 call_action call_rewriter call_exec "[]"] u(2) keeps_failed_id c a x nf
  have "failed s5
      \<and> commit_loop call_exec 0 [call_action] call_rewriter = Inr (Aborted (s5\<lparr>finished := True\<rparr>))"
    by simp
  then have l: "\<exists>s5. commit_loop call_exec 0 [call_action] call_rewriter = Inr (Aborted s5)
          \<and> failed s5 \<and> finished s5"
    by auto
  show ?thesis using h u s e(1,2) r d f l by blast
qed

text \<open>Where C2 as it is stated fails.  The seventh argument is passed on the stack; when
  it is owned and needs a decref, its only location is neither a scratch slot nor a
  register.  At a call that may throw, with the rewrite not failed, \<open>failed\<close> is not set:
  the release assertion \<^verbatim>\<open>not implemented\<close> of \<^verbatim>\<open>getDecrefLocations\<close> fails, in
  \<^verbatim>\<open>_call\<close> and in \<^verbatim>\<open>_checkAndThrowCAPIException\<close> alike.\<close>

theorem decref_info_counterexample:
  "locations (vars owned_stack_arg_rewriter ! 6) = [Stack 0]
   \<and> reftype (vars owned_stack_arg_rewriter ! 6) = OWNED
   \<and> needsDecref owned_stack_arg_rewriter (vars owned_stack_arg_rewriter ! 6)
        (current_action_idx owned_stack_arg_rewriter) = Inr True
   \<and> \<not> failed owned_stack_arg_rewriter
   \<and> map_sum id (\<lambda>r. (fst r, failed (snd r)))
        (rw_call_site (\<lambda>u. Inr) False 0x401000 [] [] [] owned_stack_arg_rewriter) = Inr (False, False)
   \<and> map_sum id failed
        (rw_call (\<lambda>u. Inr) (\<lambda>u. Inr) None False True 0x401000 [] [] [] owned_stack_arg_rewriter)
       = Inl ReleaseAssertFail
   \<and> map_sum id failed
        (rw_checkAndThrowCAPIException (\<lambda>u. Inr) AnyReg 0x401000 0 0 MovQ owned_stack_arg_rewriter)
       = Inl ReleaseAssertFail
   \<and> map_sum id failed (registerDecrefInfoHere owned_stack_arg_rewriter) = Inl ReleaseAssertFail"
  by code_simp

subsection \<open>Repeated attribute loads\<close>

text \<open>What \<^verbatim>\<open>getAttr\<close> does on a recorded load when the destination is any
  register and when it is a given one, and what it does after a mutating action.\<close>

lemma getAttr_memo_any:
  "\<not> added_changing_action st \<Longrightarrow> getattrs (vars st ! v) (offset, type) = Some r \<Longrightarrow>
     getAttr v offset AnyReg type st = Inr (r, st)"
  by (simp add: getAttr_def)

lemma getAttr_memo_dest:
  "\<not> added_changing_action st \<Longrightarrow> getattrs (vars st ! v) (offset, type) = Some r \<Longrightarrow>
     \<not> is_constant (vars st ! r) \<Longrightarrow> \<not> isScratchAllocation (vars st ! r) \<Longrightarrow>
     locations (vars st ! r) = [] \<Longrightarrow>
     getAttr v offset (Register reg) type st = Inl AssertFail"
  by (simp add: getAttr_def getInReg_def Let_def preserve_ok_def)

lemma getAttr_after_mutation:
  "added_changing_action st \<Longrightarrow> \<not> phase_emitting st \<Longrightarrow>
     \<exists>st'. getAttr v offset dest type st = Inr (length (vars st), st')
          \<and> length (vars st') = Suc (length (vars st))
          \<and> length (actions st') = Suc (length (actions st))"
  by (simp add: getAttr_def createNewVar_def addAction_def add_use_def Let_def)

text \<open>
  Claim C7.  The first \<^verbatim>\<open>getAttr(16, RAX, Q)\<close> on the argument of a new rewriter
  returns the new variable 1, records it in \<open>getattrs\<close> and enqueues the load; no
  mutating action has been recorded, and variable 1 has no location, since the load is
  not emitted before \<^verbatim>\<open>commit()\<close>.  The same call again finds the variable in
  \<open>getattrs\<close> and, the destination being a register, brings it into that register on
  the spot: \<^verbatim>\<open>getInReg\<close> fails its assertion \<^verbatim>\<open>locations.size()\<close>, and the call returns
  no variable.  With the destination \<^verbatim>\<open>Location::any()\<close> the repeated call returns
  variable 1.
\<close>

theorem getAttr_repeated_with_dest_fails:
  "map_sum id fst (getAttr 0 16 (Register RAX) MovQ one_arg_rewriter) = Inr 1
   \<and> \<not> added_changing_action attr_loaded_rewriter
   \<and> getattrs (vars attr_loaded_rewriter ! 0) (16, MovQ) = Some 1
   \<and> locations (vars attr_loaded_rewriter ! 1) = []
   \<and> map_sum id fst (getAttr 0 16 (Register RAX) MovQ attr_loaded_rewriter) = Inl AssertFail
   \<and> map_sum id fst (getAttr 0 16 AnyReg MovQ attr_loaded_rewriter) = Inr 1"
  by code_simp

subsection \<open>Repeated attribute guards\<close>

lemma add_use_length [simp]: "length (add_use idx vl w) = length vl"
  by (simp add: add_use_def)

lemma add_use_nth:
  "constant_value (add_use idx vl w ! u) = constant_value (vl ! u)"
  "attr_guards (add_use idx vl w ! u) = attr_guards (vl ! u)"
  by (cases "w < length vl"; cases "w = u"; simp add: add_use_def list_update_beyond not_less)+

lemma snoc_update: "length xs = n \<Longrightarrow> (xs @ [x])[n := y] = xs @ [y]"
  by auto

lemma snoc_nth: "length xs = n \<Longrightarrow> (xs @ [x]) ! n = x"
  by auto

text \<open>What the first call does to the fields the guards depend on\<close>

lemma addAttrGuard_fresh:
  assumes v: "v < length (vars st)"
    and t: "(offset, val, negate) \<notin> attr_guards (vars st ! v)"
    and r: "addAttrGuard v offset val negate st = Inr st1"
    and tab: "list_all (\<lambda>p. snd p < length (vars st) \<and> constant_value (vars st ! snd p) = fst p)
               (loader_consts st)"
  shows "\<exists>val_var. actions st1 = actions st @ [\<lparr>action = OpAddAttrGuard v offset val_var negate,
                                                  consumed_refs = []\<rparr>]
      \<and> val_var < length (vars st1) \<and> constant_value (vars st1 ! val_var) = val
      \<and> length (vars st) \<le> length (vars st1)
      \<and> (\<forall>w < length (vars st). constant_value (vars st1 ! w) = constant_value (vars st ! w)
            \<and> attr_guards (vars st1 ! w)
                = (if w = v then insert (offset, val, negate) (attr_guards (vars st ! w))
                   else attr_guards (vars st ! w)))
      \<and> (loader_consts st1 = loader_consts st
          \<or> loader_consts st1 = loader_consts st @ [(val, val_var)])"
proof -
  let ?var = "vars st ! v"
  let ?vs0 = "(vars st)[v := ?var\<lparr>attr_guards := insert (offset, val, negate) (attr_guards ?var)\<rparr>]"
  let ?st0 = "st\<lparr>vars := ?vs0\<rparr>"
  have vs0: "\<forall>w < length (vars st). constant_value (?vs0 ! w) = constant_value (vars st ! w)
       \<and> attr_guards (?vs0 ! w) = (if w = v then insert (offset, val, negate) (attr_guards (vars st ! w))
                   else attr_guards (vars st ! w))"
    using v by (auto simp: nth_list_update)
  from r t obtain val_var s1 where lc: "loadConst val ?st0 = Inr (val_var, s1)"
    and e: "st1 = addAction (OpAddAttrGuard v offset val_var negate) [v, val_var] GUARD s1"
    by (auto simp: addAttrGuard_def Let_def rbind_def split: sum.splits)
  have a: "actions st1 = actions s1 @ [\<lparr>action = OpAddAttrGuard v offset val_var negate, consumed_refs = []\<rparr>]"
    and vs1: "vars st1 = add_use (length (actions s1)) (add_use (length (actions s1)) (vars s1) v) val_var"
    and l1: "loader_consts st1 = loader_consts s1"
    using e by (simp_all add: addAction_def Let_def)
  show ?thesis
  proof (cases "List.find (\<lambda>p. fst p = val) (loader_consts st)")
    case (Some p)
    with lc have s1: "s1 = ?st0" "val_var = snd p" by (simp_all add: loadConst_def)
    from find_SomeD[OF Some] tab have p: "snd p < length (vars st)"
      "constant_value (vars st ! snd p) = val"
      by (auto simp: list_all_iff)
    show ?thesis
      using a vs1 l1 s1 p vs0 by (auto simp: add_use_nth)
  next
    case None
    with lc have ne: "\<not> phase_emitting st"
      by (auto simp: loadConst_def createNewConstantVar_def createNewVar_def split: if_splits)
    with None lc have s1: "val_var = length (vars st)"
      "vars s1 = ?vs0 @ [new_var\<lparr>is_constant := True, constant_value := val\<rparr>]"
      "actions s1 = actions st" "loader_consts s1 = loader_consts st @ [(val, val_var)]"
      by (auto simp: loadConst_def createNewConstantVar_def createNewVar_def snoc_update snoc_nth)
    have "\<forall>w < length (vars st). constant_value (vars s1 ! w) = constant_value (vars st ! w)
       \<and> attr_guards (vars s1 ! w) = (if w = v then insert (offset, val, negate) (attr_guards (vars st ! w))
                   else attr_guards (vars st ! w))"
      using vs0 s1(2) by (simp add: nth_append)
    moreover have "constant_value (vars s1 ! val_var) = val" using s1(1,2) by (simp add: nth_append)
    ultimately show ?thesis
      using a vs1 l1 s1 by (auto simp: add_use_nth)
  qed
qed

lemma addAttrGuard_present:
  "(offset, val, negate) \<in> attr_guards (vars st ! v) \<Longrightarrow> addAttrGuard v offset val negate st = Inr st"
  by (simp add: addAttrGuard_def)

lemma addAttrGuard_records:
  assumes v: "v < length (vars st)" and r: "addAttrGuard v offset val negate st = Inr st1"
  shows "(offset, val, negate) \<in> attr_guards (vars st1 ! v)"
proof (cases "(offset, val, negate) \<in> attr_guards (vars st ! v)")
  case True
  with r show ?thesis by (simp add: addAttrGuard_def)
next
  case False
  let ?var = "vars st ! v"
  let ?vs0 = "(vars st)[v := ?var\<lparr>attr_guards := insert (offset, val, negate) (attr_guards ?var)\<rparr>]"
  let ?st0 = "st\<lparr>vars := ?vs0\<rparr>"
  from r False obtain val_var s1 where lc: "loadConst val ?st0 = Inr (val_var, s1)"
    and e: "st1 = addAction (OpAddAttrGuard v offset val_var negate) [v, val_var] GUARD s1"
    by (auto simp: addAttrGuard_def Let_def rbind_def split: sum.splits)
  have vs1: "vars st1 = add_use (length (actions s1)) (add_use (length (actions s1)) (vars s1) v) val_var"
    using e by (simp add: addAction_def Let_def)
  have "attr_guards (vars s1 ! v) = insert (offset, val, negate) (attr_guards ?var)"
  proof (cases "List.find (\<lambda>p. fst p = val) (loader_consts st)")
    case (Some p)
    with lc have "s1 = ?st0" by (simp add: loadConst_def)
    with v show ?thesis by simp
  next
    case None
    with lc have "vars s1 = ?vs0 @ [new_var\<lparr>is_constant := True, constant_value := val\<rparr>]"
      by (auto simp: loadConst_def createNewConstantVar_def createNewVar_def snoc_update snoc_nth
          split: if_splits)
    with v show ?thesis by (simp add: nth_append)
  qed
  with vs1 show ?thesis by (simp add: add_use_nth)
qed

lemma addAttrGuard_keeps_recorded:
  assumes v: "v < length (vars st)" and r: "addAttrGuard v offset val negate st = Inr st1"
    and inv: "guards_recorded st"
  shows "guards_recorded st1"
proof (cases "(offset, val, negate) \<in> attr_guards (vars st ! v)")
  case True
  with r inv show ?thesis by (simp add: addAttrGuard_def)
next
  case t: False
  from inv have tab: "list_all (\<lambda>p. snd p < length (vars st) \<and> constant_value (vars st ! snd p) = fst p)
               (loader_consts st)"
    and rec: "list_all (guard_recorded st) (actions st)"
    and cnt: "\<And>v offset val negate. guard_count st v offset val negate \<le> 1"
    by (simp_all add: guards_recorded_def)
  from addAttrGuard_fresh[OF v t r tab] obtain val_var where
    acts: "actions st1 = actions st @ [\<lparr>action = OpAddAttrGuard v offset val_var negate,
                                                  consumed_refs = []\<rparr>]"
    and vv: "val_var < length (vars st1)" "constant_value (vars st1 ! val_var) = val"
    and len: "length (vars st) \<le> length (vars st1)"
    and old: "\<And>w. w < length (vars st) \<Longrightarrow> constant_value (vars st1 ! w) = constant_value (vars st ! w)
            \<and> attr_guards (vars st1 ! w)
                = (if w = v then insert (offset, val, negate) (attr_guards (vars st ! w))
                   else attr_guards (vars st ! w))"
    and lcs: "loader_consts st1 = loader_consts st
          \<or> loader_consts st1 = loader_consts st @ [(val, val_var)]"
    by blast
  have tab1: "list_all (\<lambda>p. snd p < length (vars st1) \<and> constant_value (vars st1 ! snd p) = fst p)
               (loader_consts st1)"
  proof -
    have "list_all (\<lambda>p. snd p < length (vars st1) \<and> constant_value (vars st1 ! snd p) = fst p)
               (loader_consts st)"
      using tab len old by (auto simp: list_all_iff)
    with lcs vv show ?thesis by auto
  qed
  have keep: "guard_recorded st a \<Longrightarrow> guard_recorded st1 a" for a
    using len old by (cases "action a") (auto simp: guard_recorded_def)
  have new: "guard_recorded st1 \<lparr>action = OpAddAttrGuard v offset val_var negate, consumed_refs = []\<rparr>"
    using v len vv old[OF v] by (simp add: guard_recorded_def)
  have rec1: "list_all (guard_recorded st1) (actions st1)"
    using rec keep new acts by (auto simp: list_all_iff)
  have same: "guard_recorded st a \<Longrightarrow>
      is_attr_guard_of st1 v' o' val' n' a = is_attr_guard_of st v' o' val' n' a" for a v' o' val' n'
    using old by (cases "action a") (auto simp: guard_recorded_def is_attr_guard_of_def)
  have oldcount: "length (filter (is_attr_guard_of st1 v' o' val' n') (actions st))
      = guard_count st v' o' val' n'" for v' o' val' n'
  proof -
    have "filter (is_attr_guard_of st1 v' o' val' n') (actions st)
        = filter (is_attr_guard_of st v' o' val' n') (actions st)"
      using rec same by (intro filter_cong) (auto simp: list_all_iff)
    then show ?thesis by (simp add: guard_count_def)
  qed
  have none: "guard_count st v offset val negate = 0"
  proof -
    have "\<not> is_attr_guard_of st v offset val negate a" if "a \<in> set (actions st)" for a
    proof
      assume m: "is_attr_guard_of st v offset val negate a"
      from rec that have "guard_recorded st a" by (simp add: list_all_iff)
      with m have "(offset, val, negate) \<in> attr_guards (vars st ! v)"
        by (cases "action a") (auto simp: guard_recorded_def is_attr_guard_of_def)
      with t show False by simp
    qed
    then show ?thesis by (simp add: guard_count_def filter_empty_conv)
  qed
  have cnt1: "guard_count st1 v' o' val' n' \<le> 1" for v' o' val' n'
  proof (cases "v' = v \<and> o' = offset \<and> n' = negate \<and> val' = val")
    case True
    then show ?thesis
      using acts oldcount[of v offset val negate] none
      by (simp add: guard_count_def)
  next
    case False
    then have "\<not> is_attr_guard_of st1 v' o' val' n'
        \<lparr>action = OpAddAttrGuard v offset val_var negate, consumed_refs = []\<rparr>"
      using vv by (auto simp: is_attr_guard_of_def)
    then show ?thesis
      using acts oldcount[of v' o' val' n'] cnt[of v' o' val' n']
      by (simp add: guard_count_def)
  qed
  show ?thesis using tab1 rec1 cnt1 by (simp add: guards_recorded_def)
qed

text \<open>
  Claim C8.  After a call of \<^verbatim>\<open>addAttrGuard(offset, val, negate)\<close> on a variable has
  returned, a second call with the same triple on the same variable returns the rewriter
  as it is: no action is enqueued, and the rewrite is the one of the single call.  When
  the bookkeeping of the guards held before the first call, it holds after it: the queue
  has at most one guard action, and so at most one compare and conditional jump is
  emitted, for each triple of each variable.
\<close>

theorem addAttrGuard_twice:
  assumes "v < length (vars st)" and "addAttrGuard v offset val negate st = Inr st1"
  shows "addAttrGuard v offset val negate st1 = Inr st1
     \<and> (guards_recorded st \<longrightarrow> guards_recorded st1 \<and> guard_count st1 v offset val negate \<le> 1)"
proof -
  from addAttrGuard_records[OF assms] have "addAttrGuard v offset val negate st1 = Inr st1"
    by (rule addAttrGuard_present)
  moreover have "guards_recorded st \<longrightarrow> guards_recorded st1 \<and> guard_count st1 v offset val negate \<le> 1"
    using addAttrGuard_keeps_recorded[OF assms] by (auto simp: guards_recorded_def)
  ultimately show ?thesis by blast
qed

theorem addAttrGuard_twice_witness:
  "0 < length (vars one_arg_rewriter) \<and> guards_recorded one_arg_rewriter
   \<and> addAttrGuard 0 16 0x1234 False one_arg_rewriter = Inr guarded_rewriter
   \<and> addAttrGuard 0 16 0x1234 False guarded_rewriter = Inr guarded_rewriter
   \<and> map action (actions guarded_rewriter) = [OpAddAttrGuard 0 16 1 False]
   \<and> guards_recorded guarded_rewriter"
proof -
  have h: "0 < length (vars one_arg_rewriter)" by code_simp
  have "actions one_arg_rewriter = []" "loader_consts one_arg_rewriter = []" by code_simp+
  then have g: "guards_recorded one_arg_rewriter"
    by (simp add: guards_recorded_def guard_count_def)
  have "\<not> isl (addAttrGuard 0 16 0x1234 False one_arg_rewriter)" by code_simp
  then have r: "addAttrGuard 0 16 0x1234 False one_arg_rewriter = Inr guarded_rewriter"
    by (cases "addAttrGuard 0 16 0x1234 False one_arg_rewriter") (simp_all add: guarded_rewriter_def)
  have a: "map action (actions guarded_rewriter) = [OpAddAttrGuard 0 16 1 False]" by code_simp
  from addAttrGuard_twice[OF h r] g h r a show ?thesis by blast
qed

end
